theory Spec2Isabelle
  imports Complex_Main "HOL-Library.AList" "HOL-Library.FSet" "HOL-Library.Product_Lexorder"
begin

section \<open>Images\<close>

text \<open>
  A decoded image is its grid of pixels, a list of rows; the pixel type is left open.
  \<open>getpixel\<close> takes the column first, as the imaging library does. Two images are equal
  when their pixel grids are equal.
\<close>

type_synonym 'a image = "'a list list"

definition img_height :: "'a image \<Rightarrow> nat" where
  "img_height img = length img"

definition img_width :: "'a image \<Rightarrow> nat" where
  "img_width img = (case img of [] \<Rightarrow> 0 | r # _ \<Rightarrow> length r)"

definition getpixel :: "'a image \<Rightarrow> nat \<times> nat \<Rightarrow> 'a" where
  "getpixel img xy = img ! snd xy ! fst xy"

text \<open>\<open>ImageOps.mirror\<close>: flip left to right.\<close>

definition mirror :: "'a image \<Rightarrow> 'a image" where
  "mirror img = map rev img"

text \<open>
  The three exact transpositions of the library. A quarter turn is counter-clockwise:
  the pixel at column \<open>x\<close>, row \<open>y\<close> moves to row \<open>width - 1 - x\<close>, column \<open>y\<close>.
\<close>

definition rotate_90 :: "'a image \<Rightarrow> 'a image" where
  "rotate_90 img =
     map (\<lambda>r. map (\<lambda>c. getpixel img (img_width img - 1 - r, c)) [0..<img_height img])
       [0..<img_width img]"

definition rotate_180 :: "'a image \<Rightarrow> 'a image" where
  "rotate_180 img = rev (map rev img)"

definition rotate_270 :: "'a image \<Rightarrow> 'a image" where
  "rotate_270 img =
     map (\<lambda>r. map (\<lambda>c. getpixel img (r, img_height img - 1 - c)) [0..<img_height img])
       [0..<img_width img]"

text \<open>
  What the program takes from the imaging library and this development leaves open:
  the decoder (\<open>Image.open\<close>, a function of the path: the files do not change while the
  program runs), and the resampling that \<open>Image.rotate\<close> falls back to when the turn is
  not one of its exact cases.
\<close>

record ('p, 'a) imaging =
  image_open :: "'p \<Rightarrow> 'a image"
  resample :: "nat \<Rightarrow> 'a image \<Rightarrow> 'a image"

text \<open>
  \<open>Image.rotate(angle)\<close> without \<open>expand\<close>: the angle is taken modulo 360; 0 copies the
  image, 180 is exact, 90 and 270 are exact for a square image only.
\<close>

definition rotate :: "('p, 'a) imaging \<Rightarrow> 'a image \<Rightarrow> nat \<Rightarrow> 'a image" where
  "rotate L img angle =
     (let a = angle mod 360 in
      if a = 0 then img
      else if a = 180 then rotate_180 img
      else if (a = 90 \<or> a = 270) \<and> img_width img = img_height img
        then (if a = 90 then rotate_90 img else rotate_270 img)
      else resample L a img)"

section \<open>Tiles\<close>

text \<open>
  A tile is compared, hashed and ordered by \<open>args\<close> alone, so a tile is its three
  arguments; its image and its borders are functions of them.
\<close>

datatype 'p tile = Tile (path: 'p) (reflected: bool) (rotation: nat)

definition args :: "'p tile \<Rightarrow> 'p \<times> bool \<times> nat" where
  "args t = (path t, reflected t, rotation t)"

instantiation tile :: (linorder) linorder
begin

definition less_eq_tile :: "'a tile \<Rightarrow> 'a tile \<Rightarrow> bool" where
  "less_eq_tile t u \<longleftrightarrow> args t \<le> args u"

definition less_tile :: "'a tile \<Rightarrow> 'a tile \<Rightarrow> bool" where
  "less_tile t u \<longleftrightarrow> args t < args u"

instance
proof
  fix x y z :: "'a tile"
  show "(x < y) = (x \<le> y \<and> \<not> y \<le> x)"
    unfolding less_eq_tile_def less_tile_def by (rule less_le_not_le)
  show "x \<le> x"
    unfolding less_eq_tile_def by simp
  show "x \<le> y \<Longrightarrow> y \<le> z \<Longrightarrow> x \<le> z"
    unfolding less_eq_tile_def by (rule order_trans)
  show "x \<le> y \<Longrightarrow> y \<le> x \<Longrightarrow> x = y"
    unfolding less_eq_tile_def args_def
    by (cases x, cases y) (auto dest: antisym)
  show "x \<le> y \<or> y \<le> x"
    unfolding less_eq_tile_def by (rule linear)
qed

end

definition tile_image :: "('p, 'a) imaging \<Rightarrow> 'p tile \<Rightarrow> 'a image" where
  "tile_image L t =
     (let img = image_open L (path t);
          img = (if reflected t then mirror img else img)
      in rotate L img (rotation t * 90))"

definition tile_width_of :: "('p, 'a) imaging \<Rightarrow> 'p tile \<Rightarrow> nat" where
  "tile_width_of L t = img_width (tile_image L t)"

definition tile_height_of :: "('p, 'a) imaging \<Rightarrow> 'p tile \<Rightarrow> nat" where
  "tile_height_of L t = img_height (tile_image L t)"

text \<open>The four borders, indexed by side: 0 top, 1 left, 2 bottom, 3 right.\<close>

definition borders :: "('p, 'a) imaging \<Rightarrow> 'p tile \<Rightarrow> nat \<Rightarrow> 'a list" where
  "borders L t side =
     (let img = tile_image L t; w = tile_width_of L t; h = tile_height_of L t in
      if side = 0 then map (\<lambda>col. getpixel img (col, 0)) [0..<w]
      else if side = 1 then map (\<lambda>row. getpixel img (0, row)) [0..<h]
      else if side = 2 then map (\<lambda>col. getpixel img (col, h - 1)) [0..<w]
      else map (\<lambda>row. getpixel img (w - 1, row)) [0..<h])"

section \<open>The tile set\<close>

datatype error =
  Tiles_not_same_size
  | Constraint_failure "int \<times> int"
  | Min_empty_sequence
  | Key_error
  | Random_error

text \<open>
  Dictionaries are association lists in insertion order: \<open>map_of\<close> reads a key,
  \<open>AList.update\<close> stores under a key (in place, or at the end for a new key) and
  \<open>AList.delete\<close> removes it. \<open>border_map\<close> is indexed by the side; each of its four
  dictionaries creates an empty set for a key that is looked up and missing.
\<close>

definition keys :: "('k \<times> 'v) list \<Rightarrow> 'k set" where
  "keys d = fst ` set d"

record ('p, 'a) tileset =
  tiles :: "('p tile \<times> real) list"
  border_map :: "nat \<Rightarrow> ('a list \<times> 'p tile fset) list"
  tile_width :: "nat option"
  tile_height :: "nat option"

definition TileSet :: "('p, 'a) tileset" where
  "TileSet = \<lparr>tiles = [], border_map = (\<lambda>side. []), tile_width = None, tile_height = None\<rparr>"

text \<open>The eight pairs of the two nested loops of \<open>add_tile\<close>, in the order they run.\<close>

definition symmetries :: "(bool \<times> nat) list" where
  "symmetries = concat (map (\<lambda>reflection. map (\<lambda>rot. (reflection, rot)) [0..<4]) [False, True])"

fun variants_loop ::
  "('p, 'a) imaging \<Rightarrow> 'p \<Rightarrow> (bool \<times> nat) list \<Rightarrow> 'a image list \<times> 'p tile fset
    \<Rightarrow> 'a image list \<times> 'p tile fset" where
  "variants_loop L p [] acc = acc"
| "variants_loop L p ((reflection, rot) # rest) (exists, tile_set) =
     (let tile = Tile p reflection rot in
      if tile_image L tile \<in> set exists then variants_loop L p rest (exists, tile_set)
      else variants_loop L p rest (exists @ [tile_image L tile], finsert tile tile_set))"

definition variants :: "('p, 'a) imaging \<Rightarrow> 'p \<Rightarrow> 'p tile fset" where
  "variants L p = snd (variants_loop L p symmetries ([], {||}))"

text \<open>\<open>border_map[side][border].add(tile)\<close>.\<close>

definition index_add ::
  "('a list \<times> 'p tile fset) list \<Rightarrow> 'a list \<Rightarrow> 'p tile \<Rightarrow> ('a list \<times> 'p tile fset) list" where
  "index_add d border tile =
     (case map_of d border of
        None \<Rightarrow> AList.update border {|tile|} d
      | Some s \<Rightarrow> AList.update border (finsert tile s) d)"

fun index_tile ::
  "('p, 'a) imaging \<Rightarrow> 'p tile \<Rightarrow> nat list \<Rightarrow> (nat \<Rightarrow> ('a list \<times> 'p tile fset) list)
    \<Rightarrow> (nat \<Rightarrow> ('a list \<times> 'p tile fset) list)" where
  "index_tile L tile [] bm = bm"
| "index_tile L tile (side # sides) bm =
     index_tile L tile sides (bm(side := index_add (bm side) (borders L tile side) tile))"

fun register_loop ::
  "('p::linorder, 'a) imaging \<Rightarrow> real \<Rightarrow> 'p tile list \<Rightarrow> ('p, 'a) tileset \<Rightarrow> ('p, 'a) tileset" where
  "register_loop L share [] ts = ts"
| "register_loop L share (tile # rest) ts =
     register_loop L share rest
       (ts\<lparr>tiles := AList.update tile share (tiles ts),
           border_map := index_tile L tile [0..<4] (border_map ts)\<rparr>)"

definition add_tile ::
  "('p::linorder, 'a) imaging \<Rightarrow> ('p, 'a) tileset \<Rightarrow> 'p \<Rightarrow> real \<Rightarrow> error + ('p, 'a) tileset" where
  "add_tile L ts p weight =
     (let img = image_open L p in
      case (case tile_width ts of
              None \<Rightarrow> Inr (ts\<lparr>tile_width := Some (img_width img),
                             tile_height := Some (img_height img)\<rparr>)
            | Some w \<Rightarrow> if img_width img \<noteq> w then Inl Tiles_not_same_size else Inr ts) of
        Inl e \<Rightarrow> Inl e
      | Inr ts1 \<Rightarrow>
          (let tile_set = variants L p in
           Inr (register_loop L (weight / real (fcard tile_set)) (sorted_list_of_fset tile_set)
                  ts1)))"

definition get_weight :: "('p, 'a) tileset \<Rightarrow> 'p tile \<Rightarrow> error + real" where
  "get_weight ts tile = (case map_of (tiles ts) tile of None \<Rightarrow> Inl Key_error | Some w \<Rightarrow> Inr w)"

text \<open>
  \<open>match_border\<close> returns a copy of the indexed set. The lookup of a border that is not
  a key of the dictionary stores an empty set under it, so the tile set is returned too.
\<close>

definition match_border ::
  "('p, 'a) tileset \<Rightarrow> 'a list \<Rightarrow> nat \<Rightarrow> 'p tile fset \<times> ('p, 'a) tileset" where
  "match_border ts border side =
     (case map_of (border_map ts side) border of
        Some s \<Rightarrow> (s, ts)
      | None \<Rightarrow>
          ({||}, ts\<lparr>border_map := (border_map ts)(side := border_map ts side @ [(border, {||})])\<rparr>))"

section \<open>Generation\<close>

type_synonym coord = "int \<times> int"

definition neighbors :: "coord \<Rightarrow> int \<Rightarrow> int \<Rightarrow> (nat \<times> coord) list" where
  "neighbors coord width height =
     filter (\<lambda>(side, (row, col)). 0 \<le> row \<and> row < height \<and> 0 \<le> col \<and> col < width)
       (map (\<lambda>(side, (diff_row, diff_col)). (side, (fst coord + diff_row, snd coord + diff_col)))
          (enumerate 0 [(-1, 0), (0, -1), (1, 0), (0, 1)]))"

text \<open>
  The state of one run: the two dictionaries of \<open>generate_image\<close>, and the tile set
  that \<open>place\<close> reads through \<open>match_border\<close>.
\<close>

record ('p, 'a) run =
  placed :: "(coord \<times> 'p tile) list"
  frontier :: "(coord \<times> 'p tile fset) list"
  tileset :: "('p, 'a) tileset"

text \<open>
  The loop of \<open>place\<close> over the neighbours. A raised error carries the state the
  dictionaries are in at that moment.
\<close>

fun place_loop ::
  "('p, 'a) imaging \<Rightarrow> 'p tile \<Rightarrow> (nat \<times> coord) list \<Rightarrow> ('p, 'a) run
    \<Rightarrow> (error \<times> ('p, 'a) run) + ('p, 'a) run" where
  "place_loop L tile [] st = Inr st"
| "place_loop L tile ((side, frontier_coord) # rest) st =
     (if frontier_coord \<in> keys (placed st) then place_loop L tile rest st
      else
        (let (valid_tiles, ts) = match_border (tileset st) (borders L tile side) ((side + 2) mod 4);
             cands = (case map_of (frontier st) frontier_coord of
                        Some s \<Rightarrow> s |\<inter>| valid_tiles
                      | None \<Rightarrow> valid_tiles);
             st1 = st\<lparr>frontier := AList.update frontier_coord cands (frontier st), tileset := ts\<rparr>
         in if fcard cands = 0 then Inl (Constraint_failure frontier_coord, st1)
            else place_loop L tile rest st1))"

definition place ::
  "('p, 'a) imaging \<Rightarrow> int \<Rightarrow> int \<Rightarrow> coord \<Rightarrow> 'p tile \<Rightarrow> ('p, 'a) run
    \<Rightarrow> (error \<times> ('p, 'a) run) + ('p, 'a) run" where
  "place L width height coord tile st =
     place_loop L tile (neighbors coord width height)
       (st\<lparr>placed := AList.update coord tile (placed st),
           frontier := AList.delete coord (frontier st)\<rparr>)"

text \<open>
  \<open>min(items, key=...)\<close>: the first item is the best so far, and a later item replaces
  it only when its key is strictly smaller. No item at all is an error.
\<close>

fun min_loop :: "('x \<Rightarrow> nat) \<Rightarrow> 'x \<Rightarrow> 'x list \<Rightarrow> 'x" where
  "min_loop key best [] = best"
| "min_loop key best (x # xs) = min_loop key (if key x < key best then x else best) xs"

definition py_min :: "('x \<Rightarrow> nat) \<Rightarrow> 'x list \<Rightarrow> 'x option" where
  "py_min key xs = (case xs of [] \<Rightarrow> None | x # rest \<Rightarrow> Some (min_loop key x rest))"

text \<open>The key of the selection, \<open>lambda pair: len(pair[1])\<close>.\<close>

definition by_size :: "coord \<times> 'p tile fset \<Rightarrow> nat" where
  "by_size pair = fcard (snd pair)"

text \<open>
  The random generator is a state of an open type, with the three operations the
  program uses: creation from a seed, \<open>choice\<close>, and the single draw of \<open>choices\<close> with
  weights. A draw returns the element and the next state; \<open>None\<close> is an error raised by
  the library.
\<close>

record ('r, 'p) random =
  Random :: "int \<Rightarrow> 'r"
  choice :: "'r \<Rightarrow> 'p tile list \<Rightarrow> ('p tile \<times> 'r) option"
  choices :: "'r \<Rightarrow> 'p tile list \<Rightarrow> real list \<Rightarrow> ('p tile \<times> 'r) option"

fun get_weights :: "('p, 'a) tileset \<Rightarrow> 'p tile list \<Rightarrow> error + real list" where
  "get_weights ts [] = Inr []"
| "get_weights ts (tile # rest) =
     (case get_weight ts tile of
        Inl e \<Rightarrow> Inl e
      | Inr w \<Rightarrow> (case get_weights ts rest of Inl e \<Rightarrow> Inl e | Inr ws \<Rightarrow> Inr (w # ws)))"

fun place_seeds ::
  "('p, 'a) imaging \<Rightarrow> int \<Rightarrow> int \<Rightarrow> (coord \<times> 'p tile) list \<Rightarrow> ('p, 'a) run
    \<Rightarrow> (error \<times> ('p, 'a) run) + ('p, 'a) run" where
  "place_seeds L width height [] st = Inr st"
| "place_seeds L width height ((coord, tile) # rest) st =
     (case place L width height coord tile st of
        Inl x \<Rightarrow> Inl x
      | Inr st1 \<Rightarrow> place_seeds L width height rest st1)"

text \<open>
  The \<open>while\<close> loop, with fuel: \<open>None\<close> is a loop that has not stopped when the fuel is
  spent.
\<close>

fun generate_loop ::
  "('r, 'p::linorder) random \<Rightarrow> ('p, 'a) imaging \<Rightarrow> nat \<Rightarrow> int \<Rightarrow> int \<Rightarrow> ('p, 'a) run \<Rightarrow> 'r
    \<Rightarrow> ((error \<times> ('p, 'a) run) + ('p, 'a) run) option" where
  "generate_loop R L 0 width height st rng =
     (if int (length (placed st)) < width * height then None else Some (Inr st))"
| "generate_loop R L (Suc fuel) width height st rng =
     (if int (length (placed st)) < width * height then
        (case py_min by_size (frontier st) of
           None \<Rightarrow> Some (Inl (Min_empty_sequence, st))
         | Some (coord, possibilities) \<Rightarrow>
            (let possibilities = sorted_list_of_fset possibilities in
             case get_weights (tileset st) possibilities of
               Inl e \<Rightarrow> Some (Inl (e, st))
             | Inr weights \<Rightarrow>
                (case choices R rng possibilities weights of
                   None \<Rightarrow> Some (Inl (Random_error, st))
                 | Some (tile, rng1) \<Rightarrow>
                    (case place L width height coord tile st of
                       Inl x \<Rightarrow> Some (Inl x)
                     | Inr st1 \<Rightarrow> generate_loop R L fuel width height st1 rng1))))
      else Some (Inr st))"

definition generate_image ::
  "('r, 'p::linorder) random \<Rightarrow> ('p, 'a) imaging \<Rightarrow> nat \<Rightarrow> int \<Rightarrow> int \<Rightarrow> ('p, 'a) tileset
    \<Rightarrow> (coord \<times> 'p tile) list option \<Rightarrow> 'r option
    \<Rightarrow> ((error \<times> ('p, 'a) run) + ('p, 'a) run) option" where
  "generate_image R L fuel width height ts seed rng =
     (let rng = (case rng of None \<Rightarrow> Random R 8675309 | Some r \<Rightarrow> r);
          st0 = \<lparr>placed = [], frontier = [], tileset = ts\<rparr>
      in case (case seed of
                 None \<Rightarrow>
                   (case choice R rng (sort (map fst (tiles ts))) of
                      None \<Rightarrow> Inl Random_error
                    | Some (tile, rng1) \<Rightarrow> Inr ([((0, 0), tile)], rng1))
               | Some s \<Rightarrow> Inr (s, rng)) of
           Inl e \<Rightarrow> Some (Inl (e, st0))
         | Inr (seed, rng1) \<Rightarrow>
            (case place_seeds L width height seed st0 of
               Inl x \<Rightarrow> Some (Inl x)
             | Inr st \<Rightarrow> generate_loop R L fuel width height st rng1))"

section \<open>Notions used in the statements\<close>

text \<open>The state a call leaves the dictionaries in, whether it returned or raised.\<close>

definition outcome_state :: "(error \<times> 's) + 's \<Rightarrow> 's" where
  "outcome_state r = (case r of Inl (e, st) \<Rightarrow> st | Inr st \<Rightarrow> st)"

text \<open>The weight a tile set has registered for a tile; 0 for a tile it does not hold.\<close>

definition weight_of :: "('p, 'a) tileset \<Rightarrow> 'p tile \<Rightarrow> real" where
  "weight_of ts tile = (case get_weight ts tile of Inr w \<Rightarrow> w | Inl e \<Rightarrow> 0)"

text \<open>A coordinate inside the grid.\<close>

definition in_grid :: "int \<Rightarrow> int \<Rightarrow> coord \<Rightarrow> bool" where
  "in_grid width height c \<longleftrightarrow> 0 \<le> fst c \<and> fst c < height \<and> 0 \<le> snd c \<and> snd c < width"

text \<open>
  The first two statements of \<open>place\<close>, and one turn of its loop for a neighbour that
  is not placed: the candidate set the neighbour is left with, and the state after it.
\<close>

definition place_start :: "coord \<Rightarrow> 'p tile \<Rightarrow> ('p, 'a) run \<Rightarrow> ('p, 'a) run" where
  "place_start coord tile st =
     st\<lparr>placed := AList.update coord tile (placed st),
        frontier := AList.delete coord (frontier st)\<rparr>"

definition cands_of :: "('p, 'a) imaging \<Rightarrow> 'p tile \<Rightarrow> nat \<Rightarrow> coord \<Rightarrow> ('p, 'a) run \<Rightarrow> 'p tile fset" where
  "cands_of L tile side fc st =
     (let valid_tiles = fst (match_border (tileset st) (borders L tile side) ((side + 2) mod 4))
      in case map_of (frontier st) fc of Some s \<Rightarrow> s |\<inter>| valid_tiles | None \<Rightarrow> valid_tiles)"

definition narrow_one :: "('p, 'a) imaging \<Rightarrow> 'p tile \<Rightarrow> nat \<Rightarrow> coord \<Rightarrow> ('p, 'a) run \<Rightarrow> ('p, 'a) run" where
  "narrow_one L tile side fc st =
     st\<lparr>frontier := AList.update fc (cands_of L tile side fc st) (frontier st),
        tileset := snd (match_border (tileset st) (borders L tile side) ((side + 2) mod 4))\<rparr>"

text \<open>
  A run is a chain of calls of \<open>place\<close>; a call that raises ends it, in the state
  the call left.
\<close>

inductive run_reach :: "('p, 'a) imaging \<Rightarrow> int \<Rightarrow> int \<Rightarrow> ('p, 'a) run \<Rightarrow> ('p, 'a) run \<Rightarrow> bool" where
  start: "run_reach L width height st st"
| step: "run_reach L width height st st1 \<Longrightarrow>
     run_reach L width height st (outcome_state (place L width height coord tile st1))"

text \<open>
  The border index is sound when every tile filed under a border on a side has that
  border on that side. The empty tile set is sound and \<open>add_tile\<close> keeps it so.
\<close>

definition index_sound :: "('p, 'a) imaging \<Rightarrow> ('p, 'a) tileset \<Rightarrow> bool" where
  "index_sound L ts \<longleftrightarrow>
     (\<forall>side border s t. map_of (border_map ts side) border = Some s \<longrightarrow> t |\<in>| s
        \<longrightarrow> borders L t side = border)"

text \<open>
  The invariant of a run. Every candidate of an unplaced neighbour of a placed tile
  matches that tile across the shared edge; two placed neighbours match, unless both
  are among the coordinates \<open>S\<close> of the seed.
\<close>

definition frontier_sound :: "('p, 'a) imaging \<Rightarrow> int \<Rightarrow> int \<Rightarrow> ('p, 'a) run \<Rightarrow> bool" where
  "frontier_sound L width height st \<longleftrightarrow>
     (\<forall>c t side n. map_of (placed st) c = Some t \<longrightarrow> (side, n) \<in> set (neighbors c width height)
        \<longrightarrow> n \<notin> keys (placed st)
        \<longrightarrow> (\<exists>s. map_of (frontier st) n = Some s
              \<and> (\<forall>u. u |\<in>| s \<longrightarrow> borders L u ((side + 2) mod 4) = borders L t side)))"

definition adjacent_ok :: "('p, 'a) imaging \<Rightarrow> int \<Rightarrow> int \<Rightarrow> coord set \<Rightarrow> ('p, 'a) run \<Rightarrow> bool" where
  "adjacent_ok L width height S st \<longleftrightarrow>
     (\<forall>c t side n u. map_of (placed st) c = Some t \<longrightarrow> (side, n) \<in> set (neighbors c width height)
        \<longrightarrow> map_of (placed st) n = Some u \<longrightarrow> \<not> (c \<in> S \<and> n \<in> S)
        \<longrightarrow> borders L t side = borders L u ((side + 2) mod 4))"

definition run_inv :: "('p, 'a) imaging \<Rightarrow> int \<Rightarrow> int \<Rightarrow> coord set \<Rightarrow> ('p, 'a) run \<Rightarrow> bool" where
  "run_inv L width height S st \<longleftrightarrow>
     index_sound L (tileset st)
     \<and> distinct (map fst (frontier st))
     \<and> keys (frontier st) \<inter> keys (placed st) = {}
     \<and> (\<forall>c \<in> keys (frontier st). in_grid width height c)
     \<and> frontier_sound L width height st
     \<and> adjacent_ok L width height S st"

text \<open>The coordinates of the seed: (0, 0) when the caller gives none.\<close>

definition seed_coords :: "(coord \<times> 'p tile) list option \<Rightarrow> coord set" where
  "seed_coords seed = (case seed of None \<Rightarrow> {(0, 0)} | Some s \<Rightarrow> keys s)"

text \<open>What the program needs of \<open>choices\<close>: the element drawn is one of the population.\<close>

definition draws_from_population :: "('r, 'p) random \<Rightarrow> bool" where
  "draws_from_population R \<longleftrightarrow>
     (\<forall>r xs ws t r'. choices R r xs ws = Some (t, r') \<longrightarrow> t \<in> set xs)"

text \<open>
  Two generators make the same draws from states related by \<open>rel\<close>: both raise, or
  both return the same element and states that are related again.
\<close>

definition same_draws ::
  "('r1, 'p) random \<Rightarrow> ('r2, 'p) random \<Rightarrow> ('r1 \<Rightarrow> 'r2 \<Rightarrow> bool) \<Rightarrow> bool" where
  "same_draws R1 R2 rel \<longleftrightarrow>
     (\<forall>a b xs. rel a b \<longrightarrow>
        rel_option (\<lambda>x y. fst x = fst y \<and> rel (snd x) (snd y)) (choice R1 a xs) (choice R2 b xs))
     \<and> (\<forall>a b xs ws. rel a b \<longrightarrow>
        rel_option (\<lambda>x y. fst x = fst y \<and> rel (snd x) (snd y))
          (choices R1 a xs ws) (choices R2 b xs ws))"

text \<open>
  Two dictionaries with the same items, whatever their insertion order; two tile sets of
  the same contents: the same tiles with the same weights, the same border index and the
  same tile size, whatever the order in which the tiles were added.
\<close>

definition same_dict :: "('k \<times> 'v) list \<Rightarrow> ('k \<times> 'v) list \<Rightarrow> bool" where
  "same_dict d1 d2 \<longleftrightarrow> distinct (map fst d1) \<and> distinct (map fst d2) \<and> set d1 = set d2"

definition same_contents :: "('p, 'a) tileset \<Rightarrow> ('p, 'a) tileset \<Rightarrow> bool" where
  "same_contents ts1 ts2 \<longleftrightarrow>
     same_dict (tiles ts1) (tiles ts2)
     \<and> (\<forall>side < 4. same_dict (border_map ts1 side) (border_map ts2 side))
     \<and> tile_width ts1 = tile_width ts2 \<and> tile_height ts1 = tile_height ts2"

text \<open>
  Two states of a run that differ at most in the insertion order of the tile set's
  dictionaries, and two results of a call with such states: both raise the same error,
  or both return.
\<close>

definition same_run :: "('p, 'a) run \<Rightarrow> ('p, 'a) run \<Rightarrow> bool" where
  "same_run st1 st2 \<longleftrightarrow>
     placed st1 = placed st2 \<and> frontier st1 = frontier st2
     \<and> same_contents (tileset st1) (tileset st2)"

definition same_outcome ::
  "(error \<times> ('p, 'a) run) + ('p, 'a) run \<Rightarrow> (error \<times> ('p, 'a) run) + ('p, 'a) run \<Rightarrow> bool" where
  "same_outcome r1 r2 \<longleftrightarrow>
     (case r1 of
        Inl x1 \<Rightarrow> (case r2 of Inl x2 \<Rightarrow> fst x1 = fst x2 \<and> same_run (snd x1) (snd x2)
                              | Inr st2 \<Rightarrow> False)
      | Inr st1 \<Rightarrow> (case r2 of Inl x2 \<Rightarrow> False | Inr st2 \<Rightarrow> same_run st1 st2))"

section \<open>Concrete inputs\<close>

text \<open>
  Four image files: two uniform 2x2 tiles, a 2x2 tile with four different pixels, and a
  tile 2 wide and 3 high. The generator of the examples draws the first element.
\<close>

definition ex_lib :: "(nat, nat) imaging" where
  "ex_lib = \<lparr>image_open = (\<lambda>p. if p = 0 then [[0, 0], [0, 0]]
                              else if p = 1 then [[1, 1], [1, 1]]
                              else if p = 2 then [[1, 2], [3, 4]]
                              else [[0, 0], [0, 0], [0, 0]]),
             resample = (\<lambda>a img. img)\<rparr>"

definition ex_random :: "(unit, nat) random" where
  "ex_random = \<lparr>Random = (\<lambda>s. ()),
     choice = (\<lambda>r xs. case xs of [] \<Rightarrow> None | x # _ \<Rightarrow> Some (x, r)),
     choices = (\<lambda>r xs ws. case xs of [] \<Rightarrow> None | x # _ \<Rightarrow> Some (x, r))\<rparr>"

text \<open>
  Three tile sets: the first file alone, the third file alone, and the first two files;
  each file is added with weight 1.
\<close>

definition ex_tileset :: "(nat, nat) tileset" where
  "ex_tileset = (case add_tile ex_lib TileSet 0 1 of Inr ts \<Rightarrow> ts | Inl e \<Rightarrow> TileSet)"

definition ex_tileset2 :: "(nat, nat) tileset" where
  "ex_tileset2 = (case add_tile ex_lib TileSet 2 1 of Inr ts \<Rightarrow> ts | Inl e \<Rightarrow> TileSet)"

definition ex_tileset3 :: "(nat, nat) tileset" where
  "ex_tileset3 = (case add_tile ex_lib ex_tileset 1 1 of Inr ts \<Rightarrow> ts | Inl e \<Rightarrow> TileSet)"

text \<open>
  A run on a 2x2 grid over the first tile set: its start, the states after the first and
  the second placement, and the state \<open>generate_image\<close> ends in.
\<close>

definition ex_start :: "(nat, nat) run" where
  "ex_start = \<lparr>placed = [], frontier = [], tileset = ex_tileset\<rparr>"

definition ex_first :: "(nat, nat) run" where
  "ex_first = outcome_state (place ex_lib 2 2 (0, 0) (Tile 0 False 0) ex_start)"

definition ex_second :: "(nat, nat) run" where
  "ex_second = outcome_state (place ex_lib 2 2 (1, 0) (Tile 0 False 0) ex_first)"

definition ex_final :: "(nat, nat) run" where
  "ex_final = (case generate_image ex_random ex_lib 4 2 2 ex_tileset None None of
                 Some r \<Rightarrow> outcome_state r | None \<Rightarrow> ex_start)"

text \<open>
  A run on a grid 3 wide and 1 high over the third tile set, after the seed has put the
  tile of 0s at (0, 0).
\<close>

definition ex_seeded :: "(nat, nat) run" where
  "ex_seeded = outcome_state (place ex_lib 3 1 (0, 0) (Tile 0 False 0)
     \<lparr>placed = [], frontier = [], tileset = ex_tileset3\<rparr>)"

text \<open>
  Two more image files, a uniform 2x2 tile and a 2x2 tile with one corner of another
  colour, added in the two possible orders; a generator whose state counts its draws and
  which draws the element at that index, modulo the size of the population; and two pins
  at the two ends of a row of five cells, in the two possible insertion orders.
\<close>

definition ex_lib2 :: "(nat, nat) imaging" where
  "ex_lib2 = \<lparr>image_open = (\<lambda>p. if p = 0 then [[0, 0], [0, 0]] else [[0, 0], [0, 1]]),
              resample = (\<lambda>a img. img)\<rparr>"

definition ex_cycle :: "(nat, nat) random" where
  "ex_cycle = \<lparr>Random = (\<lambda>s. nat s),
     choice = (\<lambda>r xs. case xs of [] \<Rightarrow> None | x # _ \<Rightarrow> Some (xs ! (r mod length xs), Suc r)),
     choices = (\<lambda>r xs ws. case xs of [] \<Rightarrow> None | x # _ \<Rightarrow> Some (xs ! (r mod length xs), Suc r))\<rparr>"

definition ex_tileset4 :: "(nat, nat) tileset" where
  "ex_tileset4 = (case add_tile ex_lib2 TileSet 0 1 of Inl e \<Rightarrow> TileSet
     | Inr ts \<Rightarrow> (case add_tile ex_lib2 ts 1 1 of Inl e \<Rightarrow> TileSet | Inr ts' \<Rightarrow> ts'))"

definition ex_tileset5 :: "(nat, nat) tileset" where
  "ex_tileset5 = (case add_tile ex_lib2 TileSet 1 1 of Inl e \<Rightarrow> TileSet
     | Inr ts \<Rightarrow> (case add_tile ex_lib2 ts 0 1 of Inl e \<Rightarrow> TileSet | Inr ts' \<Rightarrow> ts'))"

definition ex_pins :: "(coord \<times> nat tile) list" where
  "ex_pins = [((0, 0), Tile 0 False 0), ((0, 4), Tile 0 False 0)]"

definition ex_pins_swapped :: "(coord \<times> nat tile) list" where
  "ex_pins_swapped = [((0, 4), Tile 0 False 0), ((0, 0), Tile 0 False 0)]"

section \<open>Dictionaries and neighbours\<close>

lemma keys_update: "keys (AList.update k v d) = insert k (keys d)"
  by (simp add: keys_def dom_update)

lemma keys_delete: "keys (AList.delete k d) = keys d - {k}"
  by (auto simp: keys_def AList.delete_eq image_iff)

lemma keys_map_of: "map_of d k = None \<longleftrightarrow> k \<notin> keys d"
  by (simp add: keys_def map_of_eq_None_iff)

lemma keys_Nil [simp]: "keys [] = {}"
  by (simp add: keys_def)


lemma neighbors_list:
  "neighbors c width height =
     filter (\<lambda>(side, n). in_grid width height n)
       [(0, (fst c - 1, snd c)), (1, (fst c, snd c - 1)),
        (2, (fst c + 1, snd c)), (3, (fst c, snd c + 1))]"
proof -
  have e: "enumerate 0 [(- 1, 0), (0, - 1), (1, 0), (0, 1 :: int)]
      = [(0, (- 1, 0)), (1, (0, - 1)), (2, (1, 0)), (3, (0, 1 :: int))]"
    by (simp add: numeral_2_eq_2 numeral_3_eq_3)
  have p: "(\<lambda>(side :: nat, (row, col)). 0 \<le> row \<and> row < height \<and> 0 \<le> col \<and> col < width)
      = (\<lambda>(side, n). in_grid width height n)"
    by (auto simp: in_grid_def fun_eq_iff)
  show ?thesis
    unfolding neighbors_def e p by simp
qed

lemma neighbors_iff:
  "(side, n) \<in> set (neighbors c width height) \<longleftrightarrow>
     in_grid width height n \<and>
     ((side = 0 \<and> n = (fst c - 1, snd c)) \<or> (side = 1 \<and> n = (fst c, snd c - 1))
      \<or> (side = 2 \<and> n = (fst c + 1, snd c)) \<or> (side = 3 \<and> n = (fst c, snd c + 1)))"
  unfolding neighbors_list set_filter by (simp only: list.set mem_Collect_eq insert_iff empty_iff prod.case prod.inject) blast

lemma neighbors_in_grid:
  "(side, n) \<in> set (neighbors c width height) \<Longrightarrow> in_grid width height n"
  by (simp add: neighbors_iff)

lemma neighbors_side: "(side, n) \<in> set (neighbors c width height) \<Longrightarrow> side < 4"
  by (auto simp: neighbors_iff)

lemma neighbors_ne: "(side, n) \<in> set (neighbors c width height) \<Longrightarrow> n \<noteq> c"
  by (cases c) (auto simp: neighbors_iff)

lemma neighbors_sym:
  assumes "(side, n) \<in> set (neighbors c width height)" and "in_grid width height c"
  shows "((side + 2) mod 4, c) \<in> set (neighbors n width height)"
  using assms by (cases c) (auto simp: neighbors_iff)

section \<open>The loop of place\<close>

lemma outcome_state_simps [simp]:
  "outcome_state (Inl (e, st)) = st" "outcome_state (Inr st) = st"
  by (simp_all add: outcome_state_def)

lemma place_loop_placed:
  "placed (outcome_state (place_loop L tile ns st)) = placed st"
proof (induction ns arbitrary: st)
  case Nil
  then show ?case by simp
next
  case (Cons n ns)
  obtain side fc where n: "n = (side, fc)" by (cases n)
  show ?case
    by (simp add: n Cons.IH Let_def split: prod.splits)
qed

lemma place_loop_narrows:
  "map_of (frontier st) c = Some s \<Longrightarrow>
     \<exists>s'. map_of (frontier (outcome_state (place_loop L tile ns st))) c = Some s' \<and> s' |\<subseteq>| s"
proof (induction ns arbitrary: st s)
  case Nil
  then show ?case by simp
next
  case (Cons n ns)
  obtain side fc where n: "n = (side, fc)" by (cases n)
  show ?case
  proof (cases "fc \<in> keys (placed st)")
    case True
    then show ?thesis using Cons.IH [OF Cons.prems] by (simp add: n)
  next
    case False
    obtain valid ts where mb: "match_border (tileset st) (borders L tile side) ((side + 2) mod 4) = (valid, ts)"
      by (cases "match_border (tileset st) (borders L tile side) ((side + 2) mod 4)")
    define cands where "cands = (case map_of (frontier st) fc of Some s \<Rightarrow> s |\<inter>| valid | None \<Rightarrow> valid)"
    define st1 where "st1 = st\<lparr>frontier := AList.update fc cands (frontier st), tileset := ts\<rparr>"
    have step: "place_loop L tile (n # ns) st =
        (if fcard cands = 0 then Inl (Constraint_failure fc, st1) else place_loop L tile ns st1)"
      using False mb by (simp add: n cands_def st1_def Let_def)
    have "\<exists>s1. map_of (frontier st1) c = Some s1 \<and> s1 |\<subseteq>| s"
      using Cons.prems by (auto simp: st1_def update_conv' cands_def)
    then obtain s1 where s1: "map_of (frontier st1) c = Some s1" "s1 |\<subseteq>| s" by blast
    show ?thesis
    proof (cases "fcard cands = 0")
      case True
      then show ?thesis using s1 step by simp
    next
      case False
      from Cons.IH [OF s1(1)] obtain s' where
        "map_of (frontier (outcome_state (place_loop L tile ns st1))) c = Some s'" "s' |\<subseteq>| s1"
        by blast
      with s1(2) False step show ?thesis by auto
    qed
  qed
qed


lemma place_loop_Cons:
  "place_loop L tile ((side, fc) # ns) st =
     (if fc \<in> keys (placed st) then place_loop L tile ns st
      else if cands_of L tile side fc st = {||}
        then Inl (Constraint_failure fc, narrow_one L tile side fc st)
      else place_loop L tile ns (narrow_one L tile side fc st))"
proof -
  obtain valid ts where
    "match_border (tileset st) (borders L tile side) ((side + 2) mod 4) = (valid, ts)"
    by (cases "match_border (tileset st) (borders L tile side) ((side + 2) mod 4)")
  then show ?thesis
    by (simp add: cands_of_def narrow_one_def Let_def)
qed

lemma narrow_one_placed [simp]: "placed (narrow_one L tile side fc st) = placed st"
  by (simp add: narrow_one_def)

lemma narrow_one_frontier:
  "map_of (frontier (narrow_one L tile side fc st)) c
     = (if c = fc then Some (cands_of L tile side fc st) else map_of (frontier st) c)"
  by (simp add: narrow_one_def update_conv')

lemma cands_of_subset:
  "map_of (frontier st) fc = Some s \<Longrightarrow> cands_of L tile side fc st |\<subseteq>| s"
  by (simp add: cands_of_def Let_def)

lemma cands_of_valid:
  "cands_of L tile side fc st
     |\<subseteq>| fst (match_border (tileset st) (borders L tile side) ((side + 2) mod 4))"
  by (simp add: cands_of_def Let_def split: option.splits)

lemma match_border_empty:
  "snd (match_border ts border side) \<noteq> ts \<Longrightarrow> fst (match_border ts border side) = {||}"
  by (simp add: match_border_def split: option.splits)

lemma narrow_one_tileset:
  "cands_of L tile side fc st \<noteq> {||} \<Longrightarrow> tileset (narrow_one L tile side fc st) = tileset st"
  using match_border_empty [of "tileset st" "borders L tile side" "(side + 2) mod 4"]
    cands_of_valid [of L tile side fc st]
  by (auto simp: narrow_one_def)

lemma narrow_one_keys:
  "keys (frontier (narrow_one L tile side fc st)) = insert fc (keys (frontier st))"
  by (simp add: narrow_one_def keys_update)

lemma narrow_one_distinct:
  "distinct (map fst (frontier st)) \<Longrightarrow> distinct (map fst (frontier (narrow_one L tile side fc st)))"
  by (simp add: narrow_one_def distinct_update)

declare place_loop.simps(2) [simp del]

lemma place_loop_keys:
  "keys (frontier (outcome_state (place_loop L tile ns st)))
     \<subseteq> keys (frontier st) \<union> (snd ` set ns - keys (placed st))"
proof (induction ns arbitrary: st)
  case Nil
  then show ?case by simp
next
  case (Cons n ns)
  obtain side fc where n: "n = (side, fc)" by (cases n)
  show ?case
    using Cons.IH [of st] Cons.IH [of "narrow_one L tile side fc st"]
    by (auto simp: n place_loop_Cons narrow_one_keys)
qed

lemma place_loop_distinct:
  "distinct (map fst (frontier st)) \<Longrightarrow>
     distinct (map fst (frontier (outcome_state (place_loop L tile ns st))))"
proof (induction ns arbitrary: st)
  case Nil
  then show ?case by simp
next
  case (Cons n ns)
  obtain side fc where n: "n = (side, fc)" by (cases n)
  show ?case
    using Cons.IH [of st] Cons.IH [of "narrow_one L tile side fc st"] Cons.prems
    by (auto simp: n place_loop_Cons narrow_one_distinct)
qed

lemma place_loop_frontier_other:
  "c \<notin> snd ` set ns \<Longrightarrow>
     map_of (frontier (outcome_state (place_loop L tile ns st))) c = map_of (frontier st) c"
proof (induction ns arbitrary: st)
  case Nil
  then show ?case by simp
next
  case (Cons n ns)
  obtain side fc where n: "n = (side, fc)" by (cases n)
  from Cons.prems have "c \<noteq> fc" "c \<notin> snd ` set ns" by (auto simp: n)
  then show ?case
    using Cons.IH [of st] Cons.IH [of "narrow_one L tile side fc st"]
    by (auto simp: n place_loop_Cons narrow_one_frontier)
qed

lemma place_loop_success:
  assumes "place_loop L tile ns st = Inr st'"
  shows "tileset st' = tileset st"
    and "\<And>side c. (side, c) \<in> set ns \<Longrightarrow> c \<notin> keys (placed st) \<Longrightarrow>
           \<exists>s. map_of (frontier st') c = Some s \<and> s \<noteq> {||}
             \<and> s |\<subseteq>| fst (match_border (tileset st) (borders L tile side) ((side + 2) mod 4))"
  using assms
proof (induction ns arbitrary: st)
  case Nil
  { case 1 then show ?case by simp }
  { case 2 then show ?case by simp }
next
  case (Cons n ns)
  obtain sd fc where n: "n = (sd, fc)" by (cases n)
  { case 1
    show ?case
    proof (cases "fc \<in> keys (placed st)")
      case True
      with 1 Cons.IH(1) [of st] show ?thesis by (simp add: n place_loop_Cons)
    next
      case False
      with 1 have ne: "cands_of L tile sd fc st \<noteq> {||}"
        and r: "place_loop L tile ns (narrow_one L tile sd fc st) = Inr st'"
        by (auto simp: n place_loop_Cons split: if_splits)
      from Cons.IH(1) [OF r] narrow_one_tileset [OF ne] show ?thesis by simp
    qed }
  { case (2 side c)
    show ?case
    proof (cases "fc \<in> keys (placed st)")
      case True
      with 2 have r: "place_loop L tile ns st = Inr st'" and "(side, c) \<in> set ns"
        by (auto simp: n place_loop_Cons)
      from Cons.IH(2) [OF this(2) 2(2) r] show ?thesis .
    next
      case False
      let ?st1 = "narrow_one L tile sd fc st"
      from False 2 have ne: "cands_of L tile sd fc st \<noteq> {||}"
        and r: "place_loop L tile ns ?st1 = Inr st'"
        by (auto simp: n place_loop_Cons split: if_splits)
      have ts1: "tileset ?st1 = tileset st" by (rule narrow_one_tileset [OF ne])
      show ?thesis
      proof (cases "(side, c) \<in> set ns")
        case True
        from Cons.IH(2) [OF True _ r] 2(2) ts1 show ?thesis by simp
      next
        case False
        with 2(1) have eq: "side = sd" "c = fc" by (auto simp: n)
        have "map_of (frontier ?st1) fc = Some (cands_of L tile sd fc st)"
          by (simp add: narrow_one_frontier)
        from place_loop_narrows [OF this, of L tile ns] r obtain s'
          where s': "map_of (frontier st') fc = Some s'" "s' |\<subseteq>| cands_of L tile sd fc st"
          by auto
        have sub: "s' |\<subseteq>| fst (match_border (tileset st) (borders L tile sd) ((sd + 2) mod 4))"
          using s'(2) cands_of_valid [of L tile sd fc st] by blast
        have "s' \<noteq> {||}"
        proof (cases "fc \<in> snd ` set ns")
          case True
          then obtain side2 where "(side2, fc) \<in> set ns" by force
          from Cons.IH(2) [OF this _ r] \<open>fc \<notin> keys (placed st)\<close> s'(1)
          show ?thesis by auto
        next
          case False
          from place_loop_frontier_other [OF False, of L tile ?st1] r
          have "map_of (frontier st') fc = Some (cands_of L tile sd fc st)"
            by (simp add: narrow_one_frontier)
          with s'(1) ne show ?thesis by simp
        qed
        with s'(1) sub eq show ?thesis by simp
      qed
    qed }
qed


lemma place_loop_failure:
  assumes "place_loop L tile ns st = Inl (e, st')"
  shows "\<exists>pre side c post st_mid. ns = pre @ (side, c) # post
           \<and> place_loop L tile pre st = Inr st_mid
           \<and> c \<notin> keys (placed st)
           \<and> cands_of L tile side c st_mid = {||}
           \<and> e = Constraint_failure c
           \<and> st' = narrow_one L tile side c st_mid"
  using assms
proof (induction ns arbitrary: st)
  case Nil
  then show ?case by simp
next
  case (Cons n ns)
  obtain sd fc where n: "n = (sd, fc)" by (cases n)
  let ?st1 = "narrow_one L tile sd fc st"
  consider (skip) "fc \<in> keys (placed st)"
    | (fail) "fc \<notin> keys (placed st)" "cands_of L tile sd fc st = {||}"
    | (go) "fc \<notin> keys (placed st)" "cands_of L tile sd fc st \<noteq> {||}"
    by blast
  then show ?case
  proof cases
    case skip
    with Cons.prems have "place_loop L tile ns st = Inl (e, st')"
      by (simp add: n place_loop_Cons)
    from Cons.IH [OF this] obtain pre side c post st_mid where
      h: "ns = pre @ (side, c) # post" "place_loop L tile pre st = Inr st_mid"
        "c \<notin> keys (placed st)" "cands_of L tile side c st_mid = {||}"
        "e = Constraint_failure c" "st' = narrow_one L tile side c st_mid"
      by blast
    have "n # ns = (n # pre) @ (side, c) # post" using h(1) by simp
    moreover have "place_loop L tile (n # pre) st = Inr st_mid"
      using skip h(2) by (simp add: n place_loop_Cons)
    ultimately show ?thesis using h(3-6) by blast
  next
    case fail
    with Cons.prems have "e = Constraint_failure fc" "st' = ?st1"
      by (simp_all add: n place_loop_Cons)
    moreover have "n # ns = [] @ (sd, fc) # ns" by (simp add: n)
    moreover have "place_loop L tile [] st = Inr st" by simp
    ultimately show ?thesis using fail by blast
  next
    case go
    with Cons.prems have "place_loop L tile ns ?st1 = Inl (e, st')"
      by (simp add: n place_loop_Cons)
    from Cons.IH [OF this] obtain pre side c post st_mid where
      h: "ns = pre @ (side, c) # post" "place_loop L tile pre ?st1 = Inr st_mid"
        "c \<notin> keys (placed ?st1)" "cands_of L tile side c st_mid = {||}"
        "e = Constraint_failure c" "st' = narrow_one L tile side c st_mid"
      by blast
    have "n # ns = (n # pre) @ (side, c) # post" using h(1) by simp
    moreover have "place_loop L tile (n # pre) st = Inr st_mid"
      using go h(2) by (simp add: n place_loop_Cons)
    moreover have "c \<notin> keys (placed st)" using h(3) by simp
    ultimately show ?thesis using h(4-6) by blast
  qed
qed

lemma place_alt:
  "place L width height coord tile st
     = place_loop L tile (neighbors coord width height) (place_start coord tile st)"
  by (simp add: place_def place_start_def)

lemma place_placed:
  "placed (outcome_state (place L width height coord tile st))
     = AList.update coord tile (placed st)"
  by (simp add: place_alt place_loop_placed place_start_def)

lemma place_placed_keys:
  "keys (placed (outcome_state (place L width height coord tile st)))
     = insert coord (keys (placed st))"
  by (simp add: place_placed keys_update)

lemma place_frontier_keys:
  "keys (frontier (outcome_state (place L width height coord tile st)))
     \<subseteq> (keys (frontier st) - {coord})
        \<union> (snd ` set (neighbors coord width height) - insert coord (keys (placed st)))"
proof -
  have "keys (frontier (place_start coord tile st)) = keys (frontier st) - {coord}"
    by (simp add: place_start_def keys_delete)
  moreover have "keys (placed (place_start coord tile st)) = insert coord (keys (placed st))"
    by (simp add: place_start_def keys_update)
  ultimately show ?thesis
    using place_loop_keys [of L tile "neighbors coord width height" "place_start coord tile st"]
    by (simp add: place_alt)
qed

lemma place_frontier_narrows:
  assumes "c \<noteq> coord" and "map_of (frontier st) c = Some s"
  shows "\<exists>s'. map_of (frontier (outcome_state (place L width height coord tile st))) c = Some s'
           \<and> s' |\<subseteq>| s"
proof -
  have "map_of (frontier (place_start coord tile st)) c = Some s"
    using assms by (simp add: place_start_def delete_conv')
  from place_loop_narrows [OF this] show ?thesis by (simp add: place_alt)
qed

lemma place_frontier_removed:
  "map_of (frontier (outcome_state (place L width height coord tile st))) coord = None"
  using place_frontier_keys [of L width height coord tile st]
  by (auto simp: keys_map_of)

lemma place_frontier_distinct:
  "distinct (map fst (frontier st)) \<Longrightarrow>
     distinct (map fst (frontier (outcome_state (place L width height coord tile st))))"
  by (simp add: place_alt place_loop_distinct place_start_def distinct_delete)

lemma place_disjoint:
  assumes "keys (frontier st) \<inter> keys (placed st) = {}"
  shows "keys (frontier (outcome_state (place L width height coord tile st)))
           \<inter> keys (placed (outcome_state (place L width height coord tile st))) = {}"
  using assms place_frontier_keys [of L width height coord tile st]
  unfolding place_placed_keys by blast

section \<open>Placement is unconditional\<close>

text \<open>
  C9. \<open>place\<close> never looks at the frontier entry of the coordinate it is given: for
  every coordinate, tile and state, whether the call returns or raises, the placed
  dictionary it leaves is the one it found with the tile stored under the coordinate.
\<close>

theorem place_unconditional:
  "placed (outcome_state (place L width height coord tile st))
     = AList.update coord tile (placed st)"
  by (simp add: place_def place_loop_placed)

section \<open>Selection of the next coordinate\<close>

lemma min_loop_spec:
  "(min_loop key best xs = best \<and> (\<forall>y \<in> set xs. key best \<le> key y))
   \<or> (\<exists>pre post. xs = pre @ min_loop key best xs # post
         \<and> key (min_loop key best xs) < key best
         \<and> (\<forall>y \<in> set pre. key (min_loop key best xs) < key y)
         \<and> (\<forall>y \<in> set post. key (min_loop key best xs) \<le> key y))"
proof (induction xs arbitrary: best)
  case Nil
  then show ?case by simp
next
  case (Cons x xs)
  show ?case
  proof (cases "key x < key best")
    case True
    let ?m = "min_loop key x xs"
    have step: "min_loop key best (x # xs) = ?m" using True by simp
    from Cons.IH [of x] show ?thesis unfolding step
    proof
      assume a: "?m = x \<and> (\<forall>y \<in> set xs. key x \<le> key y)"
      have "x # xs = [] @ ?m # xs \<and> key ?m < key best
          \<and> (\<forall>y \<in> set []. key ?m < key y) \<and> (\<forall>y \<in> set xs. key ?m \<le> key y)"
        using a True by simp
      then show "(?m = best \<and> (\<forall>y \<in> set (x # xs). key best \<le> key y))
        \<or> (\<exists>pre post. x # xs = pre @ ?m # post \<and> key ?m < key best
            \<and> (\<forall>y \<in> set pre. key ?m < key y) \<and> (\<forall>y \<in> set post. key ?m \<le> key y))"
        by blast
    next
      assume "\<exists>pre post. xs = pre @ ?m # post \<and> key ?m < key x
         \<and> (\<forall>y \<in> set pre. key ?m < key y) \<and> (\<forall>y \<in> set post. key ?m \<le> key y)"
      then obtain pre post where xs: "xs = pre @ ?m # post" and lt: "key ?m < key x"
        and pre: "\<forall>y \<in> set pre. key ?m < key y" and post: "\<forall>y \<in> set post. key ?m \<le> key y"
        by blast
      have "x # xs = (x # pre) @ ?m # post \<and> key ?m < key best
          \<and> (\<forall>y \<in> set (x # pre). key ?m < key y) \<and> (\<forall>y \<in> set post. key ?m \<le> key y)"
        using xs lt pre post True by simp
      then show "(?m = best \<and> (\<forall>y \<in> set (x # xs). key best \<le> key y))
        \<or> (\<exists>pre post. x # xs = pre @ ?m # post \<and> key ?m < key best
            \<and> (\<forall>y \<in> set pre. key ?m < key y) \<and> (\<forall>y \<in> set post. key ?m \<le> key y))"
        by blast
    qed
  next
    case False
    let ?m = "min_loop key best xs"
    have step: "min_loop key best (x # xs) = ?m" using False by simp
    from Cons.IH [of best] show ?thesis unfolding step
    proof
      assume a: "?m = best \<and> (\<forall>y \<in> set xs. key best \<le> key y)"
      with False have "?m = best \<and> (\<forall>y \<in> set (x # xs). key best \<le> key y)" by simp
      then show "(?m = best \<and> (\<forall>y \<in> set (x # xs). key best \<le> key y))
        \<or> (\<exists>pre post. x # xs = pre @ ?m # post \<and> key ?m < key best
            \<and> (\<forall>y \<in> set pre. key ?m < key y) \<and> (\<forall>y \<in> set post. key ?m \<le> key y))"
        by blast
    next
      assume "\<exists>pre post. xs = pre @ ?m # post \<and> key ?m < key best
         \<and> (\<forall>y \<in> set pre. key ?m < key y) \<and> (\<forall>y \<in> set post. key ?m \<le> key y)"
      then obtain pre post where xs: "xs = pre @ ?m # post" and lt: "key ?m < key best"
        and pre: "\<forall>y \<in> set pre. key ?m < key y" and post: "\<forall>y \<in> set post. key ?m \<le> key y"
        by blast
      have "x # xs = (x # pre) @ ?m # post \<and> key ?m < key best
          \<and> (\<forall>y \<in> set (x # pre). key ?m < key y) \<and> (\<forall>y \<in> set post. key ?m \<le> key y)"
        using xs lt pre post False by simp
      then show "(?m = best \<and> (\<forall>y \<in> set (x # xs). key best \<le> key y))
        \<or> (\<exists>pre post. x # xs = pre @ ?m # post \<and> key ?m < key best
            \<and> (\<forall>y \<in> set pre. key ?m < key y) \<and> (\<forall>y \<in> set post. key ?m \<le> key y))"
        by blast
    qed
  qed
qed

lemma py_min_spec:
  assumes "py_min key xs = Some m"
  shows "\<exists>pre post. xs = pre @ m # post
         \<and> (\<forall>y \<in> set pre. key m < key y) \<and> (\<forall>y \<in> set post. key m \<le> key y)"
proof (cases xs)
  case Nil
  with assms show ?thesis by (simp add: py_min_def)
next
  case (Cons x rest)
  with assms have m: "m = min_loop key x rest" by (simp add: py_min_def)
  from min_loop_spec [of key x rest] show ?thesis
  proof
    assume "min_loop key x rest = x \<and> (\<forall>y \<in> set rest. key x \<le> key y)"
    with m Cons have "xs = [] @ m # rest \<and> (\<forall>y \<in> set rest. key m \<le> key y)" by simp
    then show ?thesis by (metis empty_iff list.set(1))
  next
    assume "\<exists>pre post. rest = pre @ min_loop key x rest # post
         \<and> key (min_loop key x rest) < key x
         \<and> (\<forall>y \<in> set pre. key (min_loop key x rest) < key y)
         \<and> (\<forall>y \<in> set post. key (min_loop key x rest) \<le> key y)"
    then obtain pre post where r: "rest = pre @ m # post" and lt: "key m < key x"
      and pre: "\<forall>y \<in> set pre. key m < key y" and post: "\<forall>y \<in> set post. key m \<le> key y"
      using m by blast
    from r Cons have "xs = (x # pre) @ m # post" by simp
    moreover from lt pre have "\<forall>y \<in> set (x # pre). key m < key y" by simp
    ultimately show ?thesis using post by blast
  qed
qed

lemma py_min_member:
  assumes "py_min key xs = Some m"
  shows "m \<in> set xs"
  using py_min_spec [OF assms] by auto

text \<open>
  C3, as the code has it. The coordinate the loop selects is a frontier coordinate whose
  candidate set is of the smallest size; among several of that size it is the one that
  comes first in the frontier dictionary, that is, whose entry was created first. Every
  entry before the selected one is strictly larger, every entry after it at least as
  large.
\<close>

theorem selection_first_smallest:
  assumes "py_min by_size (frontier st) = Some (coord, possibilities)"
  shows "\<exists>pre post. frontier st = pre @ (coord, possibilities) # post
           \<and> (\<forall>entry \<in> set pre. fcard possibilities < fcard (snd entry))
           \<and> (\<forall>entry \<in> set post. fcard possibilities \<le> fcard (snd entry))"
  using py_min_spec [OF assms] by (simp add: by_size_def)

lemma ex_first_selected:
  "py_min by_size (frontier ex_first) = Some ((1, 0), {|Tile 0 False 0|})"
  by code_simp

theorem selection_first_smallest_witness:
  "\<exists>pre post. frontier ex_first = pre @ ((1, 0), {|Tile 0 False 0|}) # post
           \<and> (\<forall>entry \<in> set pre. fcard {|Tile (0::nat) False 0|} < fcard (snd entry))
           \<and> (\<forall>entry \<in> set post. fcard {|Tile (0::nat) False 0|} \<le> fcard (snd entry))"
  by (rule selection_first_smallest [OF ex_first_selected])

text \<open>
  C3, as the claim states it, fails. After the first tile of a 2x2 grid is placed at
  (0, 0), the frontier holds (1, 0) and (0, 1), in this order, each with one candidate.
  The loop selects (1, 0), and (0, 1) is the smaller coordinate.
\<close>

theorem selection_not_least_coordinate:
  "place ex_lib 2 2 (0, 0) (Tile 0 False 0) ex_start = Inr ex_first
   \<and> py_min by_size (frontier ex_first) = Some ((1, 0), {|Tile 0 False 0|})
   \<and> map_of (frontier ex_first) (0, 1) = Some {|Tile 0 False 0|}
   \<and> by_size ((0, 1), {|Tile (0::nat) False 0|}) = by_size ((1, 0), {|Tile (0::nat) False 0|})
   \<and> ((0, 1) :: coord) < (1, 0)"
proof -
  have "isl (place ex_lib 2 2 (0, 0) (Tile 0 False 0) ex_start) = False"
    by code_simp
  then have "place ex_lib 2 2 (0, 0) (Tile 0 False 0) ex_start = Inr ex_first"
    by (cases "place ex_lib 2 2 (0, 0) (Tile 0 False 0) ex_start") (simp_all add: ex_first_def)
  moreover have "map_of (frontier ex_first) (0, 1) = Some {|Tile 0 False 0|}"
    by code_simp
  ultimately show ?thesis
    using ex_first_selected by (simp add: by_size_def)
qed

section \<open>Ingestion\<close>

lemma add_tile_fails_iff:
  "isl (add_tile L ts p weight)
     \<longleftrightarrow> (\<exists>w. tile_width ts = Some w \<and> img_width (image_open L p) \<noteq> w)"
  by (auto simp: add_tile_def Let_def split: option.splits)

text \<open>
  C5. \<open>add_tile\<close> compares the width alone. A tile set whose tiles are 2 wide and
  2 high takes a tile 2 wide and 3 high without an error.
\<close>

theorem add_tile_accepts_other_height:
  "tile_width ex_tileset = Some 2 \<and> tile_height ex_tileset = Some 2
   \<and> img_width (image_open ex_lib 3) = 2 \<and> img_height (image_open ex_lib 3) = 3
   \<and> \<not> isl (add_tile ex_lib ex_tileset 3 1)"
  by code_simp

lemma symmetries_eq:
  "symmetries = [(False, 0), (False, 1), (False, 2), (False, 3),
                 (True, 0), (True, 1), (True, 2), (True, 3)]"
  by code_simp

lemma variants_loop_mono:
  "t |\<in>| tile_set \<Longrightarrow> t |\<in>| snd (variants_loop L p todo (exists, tile_set))"
  by (induction todo arbitrary: exists tile_set) (auto simp: Let_def)

lemma variants_first: "Tile p False 0 |\<in>| variants L p"
proof -
  obtain rest where s: "symmetries = (False, 0) # rest"
    by (simp add: symmetries_eq)
  have "variants_loop L p symmetries ([], {||})
      = variants_loop L p rest ([tile_image L (Tile p False 0)], {|Tile p False 0|})"
    unfolding s by (simp add: Let_def)
  then show ?thesis
    unfolding variants_def by (simp add: variants_loop_mono)
qed

lemma variants_card_pos: "0 < fcard (variants L p)"
proof -
  have "variants L p \<noteq> {||}" using variants_first [of p L] by auto
  then show ?thesis by (simp add: fcard_0_eq [symmetric] del: fcard_0_eq)
qed

lemma register_loop_tiles:
  "map_of (tiles (register_loop L share ts_list ts)) t
     = (if t \<in> set ts_list then Some share else map_of (tiles ts) t)"
  by (induction ts_list arbitrary: ts) (auto simp: update_conv')

lemma register_loop_widths:
  "tile_width (register_loop L share ts_list ts) = tile_width ts
   \<and> tile_height (register_loop L share ts_list ts) = tile_height ts"
  by (induction ts_list arbitrary: ts) auto

text \<open>
  C7. After \<open>add_tile\<close> of a path with a weight, every surviving variant of the
  path is registered with the weight divided by the number of surviving variants, and
  the registered weights of the surviving variants add up to the weight. Weights are
  real numbers here, so the sum is exact.
\<close>

theorem weight_conservation:
  assumes "add_tile L ts p weight = Inr ts'"
  shows "(\<forall>t. t |\<in>| variants L p \<longrightarrow>
            get_weight ts' t = Inr (weight / real (fcard (variants L p))))
       \<and> (\<Sum>t \<in> fset (variants L p). weight_of ts' t) = weight"
proof -
  let ?n = "fcard (variants L p)"
  from assms obtain ts1 where
    ts': "ts' = register_loop L (weight / real ?n) (sorted_list_of_fset (variants L p)) ts1"
    by (auto simp: add_tile_def Let_def split: option.splits if_splits)
  have reg: "get_weight ts' t = Inr (weight / real ?n)" if "t |\<in>| variants L p" for t
    using that by (simp add: get_weight_def ts' register_loop_tiles)
  have "(\<Sum>t \<in> fset (variants L p). weight_of ts' t)
      = (\<Sum>t \<in> fset (variants L p). weight / real ?n)"
    by (rule sum.cong) (simp_all add: weight_of_def reg)
  also have "\<dots> = real ?n * (weight / real ?n)"
    by (simp add: fcard.rep_eq)
  also have "\<dots> = weight"
  proof -
    have "real ?n \<noteq> 0" using variants_card_pos [of L p] by linarith
    then show ?thesis by (simp add: field_simps)
  qed
  finally show ?thesis using reg by blast
qed

lemma ex_variants: "variants ex_lib 2 = {|Tile 2 False 0, Tile 2 False 1, Tile 2 False 2, Tile 2 False 3,
  Tile 2 True 0, Tile 2 True 1, Tile 2 True 2, Tile 2 True 3|}"
  by code_simp


lemma ex_tileset2_added: "add_tile ex_lib TileSet 2 1 = Inr ex_tileset2"
  by (simp add: ex_tileset2_def add_tile_def TileSet_def Let_def)

theorem weight_conservation_witness:
  "get_weight ex_tileset2 (Tile 2 True 3) = Inr (1 / real (fcard (variants ex_lib 2)))
   \<and> fcard (variants ex_lib 2) = 8
   \<and> (\<Sum>t \<in> fset (variants ex_lib 2). weight_of ex_tileset2 t) = 1"
proof -
  have "Tile 2 True 3 |\<in>| variants ex_lib 2" by (simp add: ex_variants)
  moreover have "fcard (variants ex_lib 2) = 8" by code_simp
  ultimately show ?thesis
    using weight_conservation [OF ex_tileset2_added] by blast
qed

section \<open>Runs\<close>

lemma run_reach_disjoint:
  assumes "run_reach L width height st0 st"
    and "keys (frontier st0) \<inter> keys (placed st0) = {}"
  shows "keys (frontier st) \<inter> keys (placed st) = {}"
  using assms by (induction rule: run_reach.induct) (simp_all add: place_disjoint)

lemma run_reach_narrows:
  assumes "run_reach L width height st1 st2"
    and "map_of (frontier st1) c = Some s"
    and "c \<notin> keys (placed st1)"
  shows "(c \<in> keys (placed st2) \<and> map_of (frontier st2) c = None)
       \<or> (c \<notin> keys (placed st2)
          \<and> (\<exists>s'. map_of (frontier st2) c = Some s' \<and> s' |\<subseteq>| s \<and> fcard s' \<le> fcard s))"
  using assms
proof (induction rule: run_reach.induct)
  case (start L width height st)
  then show ?case by auto
next
  case (step L width height st st1 coord tile)
  let ?st2 = "outcome_state (place L width height coord tile st1)"
  from step.IH [OF step.prems] show ?case
  proof
    assume a: "c \<in> keys (placed st1) \<and> map_of (frontier st1) c = None"
    then have "c \<in> keys (placed ?st2)" by (simp add: place_placed_keys)
    moreover have "map_of (frontier ?st2) c = None"
      using a place_frontier_keys [of L width height coord tile st1]
      unfolding keys_map_of by blast
    ultimately show ?thesis by blast
  next
    assume a: "c \<notin> keys (placed st1)
      \<and> (\<exists>s'. map_of (frontier st1) c = Some s' \<and> s' |\<subseteq>| s \<and> fcard s' \<le> fcard s)"
    then obtain s1 where s1: "map_of (frontier st1) c = Some s1" "s1 |\<subseteq>| s" by blast
    show ?thesis
    proof (cases "c = coord")
      case True
      then show ?thesis by (simp add: place_placed_keys place_frontier_removed)
    next
      case False
      from place_frontier_narrows [OF False s1(1)] obtain s2 where
        s2: "map_of (frontier ?st2) c = Some s2" "s2 |\<subseteq>| s1" by blast
      have "s2 |\<subseteq>| s" using s2(2) s1(2) by blast
      moreover then have "fcard s2 \<le> fcard s" by (rule fcard_mono)
      moreover have "c \<notin> keys (placed ?st2)" using a False by (simp add: place_placed_keys)
      ultimately show ?thesis using s2(1) by blast
    qed
  qed
qed


lemma place_seeds_reach:
  "run_reach L width height st0 st \<Longrightarrow>
     run_reach L width height st0 (outcome_state (place_seeds L width height seeds st))"
proof (induction seeds arbitrary: st)
  case Nil
  then show ?case by simp
next
  case (Cons sd seeds)
  obtain coord tile where sd: "sd = (coord, tile)" by (cases sd)
  have step: "run_reach L width height st0 (outcome_state (place L width height coord tile st))"
    using Cons.prems by (rule run_reach.step)
  show ?case
  proof (cases "place L width height coord tile st")
    case (Inl x)
    with step show ?thesis by (simp add: sd)
  next
    case (Inr st1)
    with step have "run_reach L width height st0 st1" by simp
    from Cons.IH [OF this] Inr show ?thesis by (simp add: sd)
  qed
qed

lemma generate_loop_reach:
  assumes "run_reach L width height st0 st"
    and "generate_loop R L fuel width height st rng = Some r"
  shows "run_reach L width height st0 (outcome_state r)"
  using assms
proof (induction fuel arbitrary: st rng)
  case 0
  then show ?case by (auto split: if_splits)
next
  case (Suc fuel)
  show ?case
  proof (cases "int (length (placed st)) < width * height")
    case False
    with Suc.prems show ?thesis by auto
  next
    case True
    show ?thesis
    proof (cases "py_min by_size (frontier st)")
      case None
      with True Suc.prems show ?thesis by auto
    next
      case (Some sel)
      obtain coord poss where sel: "sel = (coord, poss)" by (cases sel)
      show ?thesis
      proof (cases "get_weights (tileset st) (sorted_list_of_fset poss)")
        case (Inl e)
        with True Some sel Suc.prems show ?thesis by auto
      next
        case (Inr ws)
        show ?thesis
        proof (cases "choices R rng (sorted_list_of_fset poss) ws")
          case None
          with True Some sel Inr Suc.prems show ?thesis by auto
        next
          case ch: (Some drawn)
          obtain tile rng1 where drawn: "drawn = (tile, rng1)" by (cases drawn)
          have step: "run_reach L width height st0
              (outcome_state (place L width height coord tile st))"
            using Suc.prems(1) by (rule run_reach.step)
          show ?thesis
          proof (cases "place L width height coord tile st")
            case (Inl x)
            with True Some sel Inr ch drawn Suc.prems(2) have "r = Inl x" by simp
            with step Inl show ?thesis by simp
          next
            case pl: (Inr st1)
            with True Some sel Inr ch drawn Suc.prems(2)
            have "generate_loop R L fuel width height st1 rng1 = Some r" by simp
            moreover from step pl have "run_reach L width height st0 st1" by simp
            ultimately show ?thesis by (rule Suc.IH [rotated])
          qed
        qed
      qed
    qed
  qed
qed

lemma generate_image_reach:
  assumes "generate_image R L fuel width height ts seed rng = Some r"
  shows "run_reach L width height \<lparr>placed = [], frontier = [], tileset = ts\<rparr> (outcome_state r)"
proof -
  let ?st0 = "\<lparr>placed = [], frontier = [], tileset = ts\<rparr>"
  have start: "run_reach L width height ?st0 ?st0" by (rule run_reach.start)
  have seeds: "run_reach L width height ?st0 (outcome_state (place_seeds L width height s ?st0))" for s
    using start by (rule place_seeds_reach)
  have rest: "run_reach L width height ?st0 (outcome_state r)"
    if "(case place_seeds L width height s ?st0 of Inl x \<Rightarrow> Some (Inl x)
          | Inr st \<Rightarrow> generate_loop R L fuel width height st rng1) = Some r" for s rng1
  proof (cases "place_seeds L width height s ?st0")
    case (Inl x)
    with that seeds [of s] show ?thesis by auto
  next
    case (Inr st)
    with that have "generate_loop R L fuel width height st rng1 = Some r" by simp
    moreover from seeds [of s] Inr have "run_reach L width height ?st0 st" by simp
    ultimately show ?thesis by (rule generate_loop_reach [rotated])
  qed
  show ?thesis
  proof (cases seed)
    case None
    show ?thesis
    proof (cases "choice R (case rng of None \<Rightarrow> Random R 8675309 | Some r \<Rightarrow> r)
        (sort (map fst (tiles ts)))")
      case n: None
      with None assms have "r = Inl (Random_error, ?st0)"
        by (simp add: generate_image_def Let_def)
      with start show ?thesis by simp
    next
      case (Some drawn)
      obtain tile rng1 where "drawn = (tile, rng1)" by (cases drawn)
      with None Some assms have
        "(case place_seeds L width height [((0, 0), tile)] ?st0 of Inl x \<Rightarrow> Some (Inl x)
          | Inr st \<Rightarrow> generate_loop R L fuel width height st rng1) = Some r"
        by (simp add: generate_image_def Let_def)
      then show ?thesis by (rule rest)
    qed
  next
    case (Some s)
    with assms have
      "(case place_seeds L width height s ?st0 of Inl x \<Rightarrow> Some (Inl x)
        | Inr st \<Rightarrow> generate_loop R L fuel width height st
            (case rng of None \<Rightarrow> Random R 8675309 | Some r \<Rightarrow> r)) = Some r"
      by (simp add: generate_image_def Let_def)
    then show ?thesis by (rule rest)
  qed
qed

text \<open>
  A contradiction error that \<open>generate_image\<close> returns is the error of a call of
  \<open>place\<close> in a state of the run, with the state that call left: nothing runs after
  the call that raised.
\<close>

lemma get_weights_error: "get_weights ts xs = Inl e \<Longrightarrow> e = Key_error"
  by (induction xs arbitrary: e) (auto simp: get_weight_def split: option.splits sum.splits)

lemma place_seeds_failure:
  assumes "place_seeds L width height seeds st = Inl (e, st')"
    and "run_reach L width height st00 st"
  shows "\<exists>coord tile st0. run_reach L width height st00 st0
           \<and> place L width height coord tile st0 = Inl (e, st')"
  using assms
proof (induction seeds arbitrary: st)
  case Nil
  then show ?case by simp
next
  case (Cons sd seeds)
  obtain coord tile where sd: "sd = (coord, tile)" by (cases sd)
  show ?case
  proof (cases "place L width height coord tile st")
    case (Inl x)
    with Cons.prems(1) have "place L width height coord tile st = Inl (e, st')"
      by (simp add: sd)
    with Cons.prems(2) show ?thesis by blast
  next
    case (Inr st1)
    with Cons.prems(1) have r: "place_seeds L width height seeds st1 = Inl (e, st')"
      by (simp add: sd)
    have "run_reach L width height st00 (outcome_state (place L width height coord tile st))"
      using Cons.prems(2) by (rule run_reach.step)
    with Inr have "run_reach L width height st00 st1" by simp
    from Cons.IH [OF r this] show ?thesis .
  qed
qed

lemma generate_loop_failure:
  assumes "generate_loop R L fuel width height st rng = Some (Inl (Constraint_failure nc, st'))"
    and "run_reach L width height st00 st"
  shows "\<exists>coord tile st0. run_reach L width height st00 st0
           \<and> place L width height coord tile st0 = Inl (Constraint_failure nc, st')"
  using assms
proof (induction fuel arbitrary: st rng)
  case 0
  then show ?case by (auto split: if_splits)
next
  case (Suc fuel)
  show ?case
  proof (cases "int (length (placed st)) < width * height")
    case False
    with Suc.prems show ?thesis by auto
  next
    case True
    show ?thesis
    proof (cases "py_min by_size (frontier st)")
      case None
      with True Suc.prems show ?thesis by auto
    next
      case (Some sel)
      obtain coord poss where sel: "sel = (coord, poss)" by (cases sel)
      show ?thesis
      proof (cases "get_weights (tileset st) (sorted_list_of_fset poss)")
        case (Inl e)
        from get_weights_error [OF this] Inl True Some sel Suc.prems show ?thesis by auto
      next
        case (Inr ws)
        show ?thesis
        proof (cases "choices R rng (sorted_list_of_fset poss) ws")
          case None
          with True Some sel Inr Suc.prems show ?thesis by auto
        next
          case ch: (Some drawn)
          obtain tile rng1 where drawn: "drawn = (tile, rng1)" by (cases drawn)
          show ?thesis
          proof (cases "place L width height coord tile st")
            case (Inl x)
            with True Some sel Inr ch drawn Suc.prems(1)
            have "place L width height coord tile st = Inl (Constraint_failure nc, st')" by simp
            with Suc.prems(2) show ?thesis by blast
          next
            case pl: (Inr st1)
            with True Some sel Inr ch drawn Suc.prems(1)
            have r: "generate_loop R L fuel width height st1 rng1
                = Some (Inl (Constraint_failure nc, st'))" by simp
            have "run_reach L width height st00
                (outcome_state (place L width height coord tile st))"
              using Suc.prems(2) by (rule run_reach.step)
            with pl have "run_reach L width height st00 st1" by simp
            from Suc.IH [OF r this] show ?thesis .
          qed
        qed
      qed
    qed
  qed
qed

lemma generate_image_failure:
  assumes "generate_image R L fuel width height ts seed rng
             = Some (Inl (Constraint_failure nc, st'))"
  shows "\<exists>coord tile st0.
           run_reach L width height \<lparr>placed = [], frontier = [], tileset = ts\<rparr> st0
           \<and> place L width height coord tile st0 = Inl (Constraint_failure nc, st')"
proof -
  let ?st0 = "\<lparr>placed = [], frontier = [], tileset = ts\<rparr>"
  let ?goal = "\<exists>coord tile st0. run_reach L width height ?st0 st0
           \<and> place L width height coord tile st0 = Inl (Constraint_failure nc, st')"
  have start: "run_reach L width height ?st0 ?st0" by (rule run_reach.start)
  have rest: ?goal
    if "(case place_seeds L width height s ?st0 of Inl x \<Rightarrow> Some (Inl x)
          | Inr st \<Rightarrow> generate_loop R L fuel width height st rng1)
        = Some (Inl (Constraint_failure nc, st'))" for s rng1
  proof (cases "place_seeds L width height s ?st0")
    case (Inl x)
    with that have "place_seeds L width height s ?st0 = Inl (Constraint_failure nc, st')"
      by simp
    from place_seeds_failure [OF this start] show ?thesis .
  next
    case (Inr st)
    with that have r: "generate_loop R L fuel width height st rng1
        = Some (Inl (Constraint_failure nc, st'))" by simp
    from place_seeds_reach [OF start, of s] Inr
    have "run_reach L width height ?st0 st" by simp
    from generate_loop_failure [OF r this] show ?thesis .
  qed
  show ?thesis
  proof (cases seed)
    case None
    show ?thesis
    proof (cases "choice R (case rng of None \<Rightarrow> Random R 8675309 | Some r \<Rightarrow> r)
        (sort (map fst (tiles ts)))")
      case n: None
      with None assms show ?thesis
        by (simp add: generate_image_def Let_def)
    next
      case (Some drawn)
      obtain tile rng1 where "drawn = (tile, rng1)" by (cases drawn)
      with None Some assms have
        "(case place_seeds L width height [((0, 0), tile)] ?st0 of Inl x \<Rightarrow> Some (Inl x)
          | Inr st \<Rightarrow> generate_loop R L fuel width height st rng1)
         = Some (Inl (Constraint_failure nc, st'))"
        by (simp add: generate_image_def Let_def)
      then show ?thesis by (rule rest)
    qed
  next
    case (Some s)
    with assms have
      "(case place_seeds L width height s ?st0 of Inl x \<Rightarrow> Some (Inl x)
        | Inr st \<Rightarrow> generate_loop R L fuel width height st
            (case rng of None \<Rightarrow> Random R 8675309 | Some r \<Rightarrow> r))
       = Some (Inl (Constraint_failure nc, st'))"
      by (simp add: generate_image_def Let_def)
    then show ?thesis by (rule rest)
  qed
qed

text \<open>
  The loop stops: each turn adds one coordinate to \<open>placed\<close>, so fuel for
  \<open>width * height\<close> turns is enough for a result, a grid or an error.
\<close>

lemma length_update_new: "k \<notin> keys d \<Longrightarrow> length (AList.update k v d) = Suc (length d)"
  by (induction d) (auto simp: keys_def)

lemma place_seeds_disjoint:
  "keys (frontier st) \<inter> keys (placed st) = {} \<Longrightarrow>
     keys (frontier (outcome_state (place_seeds L width height seeds st)))
       \<inter> keys (placed (outcome_state (place_seeds L width height seeds st))) = {}"
proof (induction seeds arbitrary: st)
  case Nil
  then show ?case by simp
next
  case (Cons sd seeds)
  obtain coord tile where sd: "sd = (coord, tile)" by (cases sd)
  from place_disjoint [OF Cons.prems, of L width height coord tile]
  show ?case
    using Cons.IH by (cases "place L width height coord tile st") (auto simp: sd)
qed

lemma generate_loop_enough_fuel:
  assumes "keys (frontier st) \<inter> keys (placed st) = {}"
    and "nat (width * height) - length (placed st) \<le> fuel"
  shows "\<exists>r. generate_loop R L fuel width height st rng = Some r"
  using assms
proof (induction fuel arbitrary: st rng)
  case 0
  then have "\<not> int (length (placed st)) < width * height" by linarith
  then show ?case by simp
next
  case (Suc fuel)
  show ?case
  proof (cases "int (length (placed st)) < width * height")
    case False
    then show ?thesis by simp
  next
    case True
    show ?thesis
    proof (cases "py_min by_size (frontier st)")
      case None
      with True show ?thesis by simp
    next
      case (Some sel)
      obtain coord poss where sel: "sel = (coord, poss)" by (cases sel)
      show ?thesis
      proof (cases "get_weights (tileset st) (sorted_list_of_fset poss)")
        case (Inl e)
        with True Some sel show ?thesis by simp
      next
        case (Inr ws)
        show ?thesis
        proof (cases "choices R rng (sorted_list_of_fset poss) ws")
          case None
          with True Some sel Inr show ?thesis by simp
        next
          case ch: (Some drawn)
          obtain tile rng1 where drawn: "drawn = (tile, rng1)" by (cases drawn)
          show ?thesis
          proof (cases "place L width height coord tile st")
            case (Inl x)
            with True Some sel Inr ch drawn show ?thesis by simp
          next
            case pl: (Inr st1)
            have st1: "st1 = outcome_state (place L width height coord tile st)"
              using pl by simp
            from py_min_member [OF Some] sel have "coord \<in> keys (frontier st)"
              by (force simp: keys_def)
            with Suc.prems(1) have "coord \<notin> keys (placed st)" by blast
            then have "length (placed st1) = Suc (length (placed st))"
              unfolding st1 place_placed by (rule length_update_new)
            with Suc.prems(2) True
            have "nat (width * height) - length (placed st1) \<le> fuel" by linarith
            moreover have "keys (frontier st1) \<inter> keys (placed st1) = {}"
              unfolding st1 using Suc.prems(1) by (rule place_disjoint)
            ultimately obtain r where "generate_loop R L fuel width height st1 rng1 = Some r"
              using Suc.IH by blast
            with True Some sel Inr ch drawn pl show ?thesis by simp
          qed
        qed
      qed
    qed
  qed
qed

lemma generate_image_total:
  assumes "nat (width * height) \<le> fuel"
  shows "\<exists>r. generate_image R L fuel width height ts seed rng = Some r"
proof -
  let ?st0 = "\<lparr>placed = [], frontier = [], tileset = ts\<rparr>"
  have rest: "\<exists>r. (case place_seeds L width height s ?st0 of Inl x \<Rightarrow> Some (Inl x)
          | Inr st \<Rightarrow> generate_loop R L fuel width height st rng1) = Some r" for s rng1
  proof (cases "place_seeds L width height s ?st0")
    case (Inl x)
    then show ?thesis by simp
  next
    case (Inr st)
    have "keys (frontier st) \<inter> keys (placed st) = {}"
      using place_seeds_disjoint [of ?st0 L width height s] Inr by simp
    moreover have "nat (width * height) - length (placed st) \<le> fuel"
      using assms by linarith
    ultimately show ?thesis using Inr generate_loop_enough_fuel by simp
  qed
  show ?thesis
  proof (cases seed)
    case None
    show ?thesis
    proof (cases "choice R (case rng of None \<Rightarrow> Random R 8675309 | Some r \<Rightarrow> r)
        (sort (map fst (tiles ts)))")
      case n: None
      with None show ?thesis by (simp add: generate_image_def Let_def)
    next
      case (Some drawn)
      obtain tile rng1 where "drawn = (tile, rng1)" by (cases drawn)
      with None Some rest [where s = "[((0, 0), tile)]" and ?rng1.0 = rng1] show ?thesis
        by (simp add: generate_image_def Let_def)
    qed
  next
    case (Some s)
    with rest [where s = s and ?rng1.0 = "case rng of None \<Rightarrow> Random R 8675309 | Some r \<Rightarrow> r"]
    show ?thesis
      by (simp add: generate_image_def Let_def)
  qed
qed

text \<open>A call that returns, and so a run that returns, leaves the tile set as it was.\<close>

lemma place_tileset_kept:
  "place L width height coord tile st = Inr st' \<Longrightarrow> tileset st' = tileset st"
  using place_loop_success(1) [of L tile "neighbors coord width height" "place_start coord tile st" st']
  by (simp add: place_alt place_start_def)

lemma place_seeds_tileset_kept:
  "place_seeds L width height seeds st = Inr st' \<Longrightarrow> tileset st' = tileset st"
proof (induction seeds arbitrary: st)
  case Nil
  then show ?case by simp
next
  case (Cons sd seeds)
  obtain coord tile where sd: "sd = (coord, tile)" by (cases sd)
  from Cons.prems obtain st1 where
    "place L width height coord tile st = Inr st1" "place_seeds L width height seeds st1 = Inr st'"
    by (auto simp: sd split: sum.splits)
  with Cons.IH [of st1] place_tileset_kept [of L width height coord tile st st1]
  show ?case by simp
qed

lemma generate_loop_tileset_kept:
  "generate_loop R L fuel width height st rng = Some (Inr st') \<Longrightarrow> tileset st' = tileset st"
proof (induction fuel arbitrary: st rng)
  case 0
  then show ?case by (auto split: if_splits)
next
  case (Suc fuel)
  show ?case
  proof (cases "int (length (placed st)) < width * height")
    case False
    with Suc.prems show ?thesis by simp
  next
    case True
    with Suc.prems obtain coord tile rng1 st1 where
      "place L width height coord tile st = Inr st1"
      "generate_loop R L fuel width height st1 rng1 = Some (Inr st')"
      by (auto simp: Let_def split: option.splits sum.splits prod.splits)
    with Suc.IH [of st1 rng1] place_tileset_kept [of L width height coord tile st st1]
    show ?thesis by simp
  qed
qed

lemma generate_image_tileset_kept:
  assumes "generate_image R L fuel width height ts seed rng = Some (Inr st)"
  shows "tileset st = ts"
proof -
  from assms obtain seeds rng1 st1 where
    "place_seeds L width height seeds \<lparr>placed = [], frontier = [], tileset = ts\<rparr> = Inr st1"
    "generate_loop R L fuel width height st1 rng1 = Some (Inr st)"
    by (auto simp: generate_image_def Let_def split: option.splits sum.splits prod.splits)
  with place_seeds_tileset_kept [of L width height seeds _ st1]
    generate_loop_tileset_kept [of R L fuel width height st1 rng1 st]
  show ?thesis by simp
qed

section \<open>The invariant of a run\<close>

lemma match_border_sound:
  assumes "index_sound L ts" and "t |\<in>| fst (match_border ts border side)"
  shows "borders L t side = border"
  using assms by (auto simp: index_sound_def match_border_def split: option.splits)

lemma mod4_opposite: "side < 4 \<Longrightarrow> ((side + 2) mod 4 + 2) mod 4 = (side :: nat)"
  by presburger

lemma place_inv:
  assumes inv: "run_inv L width height S st"
    and ok: "place L width height coord tile st = Inr st'"
    and mode: "(coord \<in> S \<and> keys (placed st) \<subseteq> S)
               \<or> (\<exists>s. map_of (frontier st) coord = Some s \<and> tile |\<in>| s)"
  shows "run_inv L width height S st'"
proof -
  let ?ns = "neighbors coord width height"
  let ?st0 = "place_start coord tile st"
  from ok have loop: "place_loop L tile ?ns ?st0 = Inr st'" by (simp add: place_alt)
  have st': "st' = outcome_state (place L width height coord tile st)" using ok by simp
  have placed': "placed st' = AList.update coord tile (placed st)"
    unfolding st' by (rule place_placed)
  have pkeys: "keys (placed st') = insert coord (keys (placed st))"
    unfolding st' by (rule place_placed_keys)
  have pmap: "map_of (placed st') c = (if c = coord then Some tile else map_of (placed st) c)" for c
    by (simp add: placed' update_conv')
  have ts': "tileset st' = tileset st"
    using place_loop_success(1) [OF loop] by (simp add: place_start_def)
  from inv have sound: "index_sound L (tileset st)"
    and dist: "distinct (map fst (frontier st))"
    and disj: "keys (frontier st) \<inter> keys (placed st) = {}"
    and grid: "\<forall>c \<in> keys (frontier st). in_grid width height c"
    and fs: "frontier_sound L width height st"
    and adj: "adjacent_ok L width height S st"
    by (simp_all add: run_inv_def)
  have fkeys: "keys (frontier st') \<subseteq> (keys (frontier st) - {coord})
        \<union> (snd ` set ?ns - insert coord (keys (placed st)))"
    unfolding st' by (rule place_frontier_keys)
  have 1: "index_sound L (tileset st')" using sound ts' by simp
  have 2: "distinct (map fst (frontier st'))"
    unfolding st' using dist by (rule place_frontier_distinct)
  have 3: "keys (frontier st') \<inter> keys (placed st') = {}"
    unfolding st' using disj by (rule place_disjoint)
  have 4: "\<forall>c \<in> keys (frontier st'). in_grid width height c"
  proof
    fix c assume "c \<in> keys (frontier st')"
    with fkeys have "c \<in> keys (frontier st) \<or> c \<in> snd ` set ?ns" by blast
    then show "in_grid width height c"
    proof
      assume "c \<in> keys (frontier st)"
      with grid show ?thesis by blast
    next
      assume "c \<in> snd ` set ?ns"
      then obtain side where "(side, c) \<in> set ?ns" by force
      then show ?thesis by (rule neighbors_in_grid)
    qed
  qed
  have 5: "frontier_sound L width height st'"
    unfolding frontier_sound_def
  proof (intro allI impI)
    fix c t side n
    assume c: "map_of (placed st') c = Some t"
      and n: "(side, n) \<in> set (neighbors c width height)"
      and np: "n \<notin> keys (placed st')"
    from np pkeys have n_ne: "n \<noteq> coord" and n_old: "n \<notin> keys (placed st)" by auto
    show "\<exists>s. map_of (frontier st') n = Some s
           \<and> (\<forall>u. u |\<in>| s \<longrightarrow> borders L u ((side + 2) mod 4) = borders L t side)"
    proof (cases "c = coord")
      case True
      with c pmap have t: "t = tile" by simp
      have "n \<notin> keys (placed ?st0)" using np pkeys by (simp add: place_start_def keys_update)
      from place_loop_success(2) [OF loop, of side n] n True this obtain s where
        s: "map_of (frontier st') n = Some s"
          "s |\<subseteq>| fst (match_border (tileset ?st0) (borders L tile side) ((side + 2) mod 4))"
        by blast
      have "tileset ?st0 = tileset st" by (simp add: place_start_def)
      with s(2) sound have "\<forall>u. u |\<in>| s \<longrightarrow> borders L u ((side + 2) mod 4) = borders L tile side"
        using match_border_sound by fastforce
      with s(1) t show ?thesis by blast
    next
      case False
      with c pmap have "map_of (placed st) c = Some t" by simp
      with fs n n_old obtain s where
        s: "map_of (frontier st) n = Some s"
           "\<forall>u. u |\<in>| s \<longrightarrow> borders L u ((side + 2) mod 4) = borders L t side"
        unfolding frontier_sound_def by blast
      from place_frontier_narrows [OF n_ne s(1), of L width height tile] obtain s' where
        "map_of (frontier st') n = Some s'" "s' |\<subseteq>| s"
        unfolding st' by blast
      with s(2) show ?thesis by blast
    qed
  qed
  have 6: "adjacent_ok L width height S st'"
    unfolding adjacent_ok_def
  proof (intro allI impI)
    fix c t side n u
    assume c: "map_of (placed st') c = Some t"
      and n: "(side, n) \<in> set (neighbors c width height)"
      and u: "map_of (placed st') n = Some u"
      and seeds: "\<not> (c \<in> S \<and> n \<in> S)"
    from n have ne: "n \<noteq> c" by (rule neighbors_ne)
    from n have side: "side < 4" by (rule neighbors_side)
    show "borders L t side = borders L u ((side + 2) mod 4)"
    proof (cases "c = coord")
      case True
      with c pmap have t: "t = tile" by simp
      from True ne u pmap have u_old: "map_of (placed st) n = Some u" by simp
      then have n_placed: "n \<in> keys (placed st)" by (metis keys_map_of option.distinct(1))
      from mode show ?thesis
      proof
        assume "coord \<in> S \<and> keys (placed st) \<subseteq> S"
        with True n_placed seeds show ?thesis by blast
      next
        assume "\<exists>s. map_of (frontier st) coord = Some s \<and> tile |\<in>| s"
        then obtain s where s: "map_of (frontier st) coord = Some s" "tile |\<in>| s" by blast
        then have "coord \<in> keys (frontier st)" by (metis keys_map_of option.distinct(1))
        with grid disj have cg: "in_grid width height coord" and cp: "coord \<notin> keys (placed st)"
          by auto
        from neighbors_sym [OF n [unfolded True] cg]
        have opp: "((side + 2) mod 4, coord) \<in> set (neighbors n width height)" .
        from fs u_old opp cp obtain s2 where
          s2: "map_of (frontier st) coord = Some s2"
            "\<forall>x. x |\<in>| s2 \<longrightarrow> borders L x (((side + 2) mod 4 + 2) mod 4) = borders L u ((side + 2) mod 4)"
          unfolding frontier_sound_def by blast
        with s have "borders L tile (((side + 2) mod 4 + 2) mod 4) = borders L u ((side + 2) mod 4)"
          by simp
        with t side show ?thesis by (simp only: mod4_opposite)
      qed
    next
      case False
      with c pmap have t_old: "map_of (placed st) c = Some t" by simp
      show ?thesis
      proof (cases "n = coord")
        case n_coord: True
        with u pmap have u_tile: "u = tile" by simp
        from t_old have c_placed: "c \<in> keys (placed st)" by (metis keys_map_of option.distinct(1))
        from mode show ?thesis
        proof
          assume "coord \<in> S \<and> keys (placed st) \<subseteq> S"
          with n_coord c_placed seeds show ?thesis by blast
        next
          assume "\<exists>s. map_of (frontier st) coord = Some s \<and> tile |\<in>| s"
          then obtain s where s: "map_of (frontier st) coord = Some s" "tile |\<in>| s" by blast
          then have "coord \<in> keys (frontier st)" by (metis keys_map_of option.distinct(1))
          with disj have cp: "coord \<notin> keys (placed st)" by auto
          from fs t_old n [unfolded n_coord] cp obtain s2 where
            "map_of (frontier st) coord = Some s2"
            "\<forall>x. x |\<in>| s2 \<longrightarrow> borders L x ((side + 2) mod 4) = borders L t side"
            unfolding frontier_sound_def by blast
          with s u_tile show ?thesis by simp
        qed
      next
        case n_other: False
        with u pmap have "map_of (placed st) n = Some u" by simp
        with adj t_old n seeds show ?thesis unfolding adjacent_ok_def by blast
      qed
    qed
  qed
  from 1 2 3 4 5 6 show ?thesis by (simp add: run_inv_def)
qed


lemma index_sound_TileSet: "index_sound L TileSet"
  by (simp add: index_sound_def TileSet_def)

lemma index_add_sound:
  assumes "\<forall>b s t. map_of d b = Some s \<longrightarrow> t |\<in>| s \<longrightarrow> borders L t side = b"
    and "map_of (index_add d (borders L tile side) tile) b = Some s" and "t |\<in>| s"
  shows "borders L t side = b"
  using assms by (auto simp: index_add_def update_conv' split: option.splits if_splits)

lemma index_tile_sound:
  assumes "\<forall>side b s t. map_of (bm side) b = Some s \<longrightarrow> t |\<in>| s \<longrightarrow> borders L t side = b"
  shows "\<forall>side b s t. map_of (index_tile L tile sides bm side) b = Some s \<longrightarrow> t |\<in>| s
           \<longrightarrow> borders L t side = b"
  using assms
proof (induction sides arbitrary: bm)
  case Nil
  then show ?case by simp
next
  case (Cons sd sides)
  let ?bm = "bm(sd := index_add (bm sd) (borders L tile sd) tile)"
  have "\<forall>side b s t. map_of (?bm side) b = Some s \<longrightarrow> t |\<in>| s \<longrightarrow> borders L t side = b"
  proof (intro allI impI)
    fix side b s t
    assume m: "map_of (?bm side) b = Some s" and t: "t |\<in>| s"
    show "borders L t side = b"
    proof (cases "side = sd")
      case True
      have "\<forall>b s t. map_of (bm sd) b = Some s \<longrightarrow> t |\<in>| s \<longrightarrow> borders L t sd = b"
        using Cons.prems by blast
      from index_add_sound [OF this, of tile b s t] m t True show ?thesis by simp
    next
      case False
      with m t Cons.prems show ?thesis by simp
    qed
  qed
  from Cons.IH [OF this] show ?case by (simp only: index_tile.simps)
qed

lemma register_loop_sound:
  "index_sound L ts \<Longrightarrow> index_sound L (register_loop L share ts_list ts)"
proof (induction ts_list arbitrary: ts)
  case Nil
  then show ?case by simp
next
  case (Cons tile rest)
  let ?ts1 = "ts\<lparr>tiles := AList.update tile share (tiles ts),
           border_map := index_tile L tile [0..<4] (border_map ts)\<rparr>"
  have "index_sound L ?ts1"
    using index_tile_sound [of "border_map ts" L tile "[0..<4]"] Cons.prems
    unfolding index_sound_def by simp
  from Cons.IH [OF this] show ?case by simp
qed

lemma add_tile_index_sound:
  assumes "index_sound L ts" and "add_tile L ts p weight = Inr ts'"
  shows "index_sound L ts'"
proof -
  from assms(2) obtain ts1 where
    ts1: "ts' = register_loop L (weight / real (fcard (variants L p)))
            (sorted_list_of_fset (variants L p)) ts1"
    and bm: "border_map ts1 = border_map ts"
    by (auto simp: add_tile_def Let_def split: option.splits if_splits)
  from assms(1) bm have "index_sound L ts1" by (simp add: index_sound_def)
  then show ?thesis unfolding ts1 by (rule register_loop_sound)
qed

lemma place_seeds_inv:
  assumes "run_inv L width height S st" and "keys (placed st) \<subseteq> S" and "keys seeds \<subseteq> S"
    and "place_seeds L width height seeds st = Inr st'"
  shows "run_inv L width height S st'"
  using assms
proof (induction seeds arbitrary: st)
  case Nil
  then show ?case by simp
next
  case (Cons sd seeds)
  obtain coord tile where sd: "sd = (coord, tile)" by (cases sd)
  from Cons.prems(4) obtain st1 where
    p: "place L width height coord tile st = Inr st1"
    and r: "place_seeds L width height seeds st1 = Inr st'"
    by (auto simp: sd split: sum.splits)
  from Cons.prems(3) have cS: "coord \<in> S" and rest: "keys seeds \<subseteq> S"
    by (auto simp: sd keys_def)
  have inv1: "run_inv L width height S st1"
    using place_inv [OF Cons.prems(1) p] cS Cons.prems(2) by blast
  have "keys (placed st1) = insert coord (keys (placed st))"
    using place_placed_keys [of L width height coord tile st] p by simp
  with cS Cons.prems(2) have "keys (placed st1) \<subseteq> S" by simp
  from Cons.IH [OF inv1 this rest r] show ?case .
qed

lemma generate_loop_inv:
  assumes "draws_from_population R"
    and "run_inv L width height S st"
    and "generate_loop R L fuel width height st rng = Some (Inr st')"
  shows "run_inv L width height S st'"
  using assms(2,3)
proof (induction fuel arbitrary: st rng)
  case 0
  then show ?case by (simp split: if_splits)
next
  case (Suc fuel)
  show ?case
  proof (cases "int (length (placed st)) < width * height")
    case False
    with Suc.prems show ?thesis by simp
  next
    case True
    with Suc.prems(2) obtain coord poss ws tile rng1 st1 where
      sel: "py_min by_size (frontier st) = Some (coord, poss)"
      and ch: "choices R rng (sorted_list_of_fset poss) ws = Some (tile, rng1)"
      and pl: "place L width height coord tile st = Inr st1"
      and rest: "generate_loop R L fuel width height st1 rng1 = Some (Inr st')"
      by (auto simp: Let_def split: option.splits sum.splits prod.splits)
    from Suc.prems(1) have "distinct (map fst (frontier st))" by (simp add: run_inv_def)
    with py_min_member [OF sel] have "map_of (frontier st) coord = Some poss" by simp
    moreover from assms(1) ch have "tile |\<in>| poss"
      unfolding draws_from_population_def by fastforce
    ultimately have "run_inv L width height S st1"
      using place_inv [OF Suc.prems(1) pl] by blast
    from Suc.IH [OF this rest] show ?thesis .
  qed
qed

lemma run_inv_start:
  "index_sound L ts \<Longrightarrow> run_inv L width height S \<lparr>placed = [], frontier = [], tileset = ts\<rparr>"
  by (simp add: run_inv_def frontier_sound_def adjacent_ok_def)

lemma generate_image_inv:
  assumes "index_sound L ts" and "draws_from_population R"
    and "generate_image R L fuel width height ts seed rng = Some (Inr st)"
  shows "run_inv L width height (seed_coords seed) st"
proof -
  let ?st0 = "\<lparr>placed = [], frontier = [], tileset = ts\<rparr>"
  have "\<exists>seeds rng1 st1. keys seeds \<subseteq> seed_coords seed
      \<and> place_seeds L width height seeds ?st0 = Inr st1
      \<and> generate_loop R L fuel width height st1 rng1 = Some (Inr st)"
  proof (cases seed)
    case None
    with assms(3) obtain tile rng1 st1 where
      "place_seeds L width height [((0, 0), tile)] ?st0 = Inr st1"
      "generate_loop R L fuel width height st1 rng1 = Some (Inr st)"
      by (auto simp: generate_image_def Let_def split: option.splits sum.splits prod.splits)
    moreover have "keys [((0, 0) :: coord, tile)] \<subseteq> seed_coords seed"
      using None by (simp add: seed_coords_def keys_def)
    ultimately show ?thesis by blast
  next
    case (Some s)
    with assms(3) obtain rng1 st1 where
      "place_seeds L width height s ?st0 = Inr st1"
      "generate_loop R L fuel width height st1 rng1 = Some (Inr st)"
      by (auto simp: generate_image_def Let_def split: option.splits sum.splits prod.splits)
    moreover have "keys s \<subseteq> seed_coords seed"
      using Some by (simp add: seed_coords_def)
    ultimately show ?thesis by blast
  qed
  then obtain seeds rng1 st1 where
    seeds: "keys seeds \<subseteq> seed_coords seed"
    and ps: "place_seeds L width height seeds ?st0 = Inr st1"
    and gl: "generate_loop R L fuel width height st1 rng1 = Some (Inr st)"
    by blast
  have "run_inv L width height (seed_coords seed) st1"
    using place_seeds_inv [OF run_inv_start [OF assms(1)] _ seeds ps] by simp
  from generate_loop_inv [OF assms(2) this gl] show ?thesis .
qed

section \<open>Adjacent tiles match\<close>

text \<open>
  C1, as the code has it. The tile set is one whose index is sound (every tile set made
  by \<open>add_tile\<close> is) and \<open>choices\<close> draws from its population. In the grid a run
  returns, two placed neighbours have the same border on their shared edge, unless both
  coordinates are coordinates of the seed: \<open>place\<close> narrows the candidates of the
  unplaced neighbours only, and compares nothing with a neighbour that is placed.
\<close>

theorem adjacency_consistency:
  assumes "index_sound L ts" and "draws_from_population R"
    and "generate_image R L fuel width height ts seed rng = Some (Inr st)"
    and "map_of (placed st) c = Some t"
    and "(side, n) \<in> set (neighbors c width height)"
    and "map_of (placed st) n = Some u"
    and "\<not> (c \<in> seed_coords seed \<and> n \<in> seed_coords seed)"
  shows "borders L t side = borders L u ((side + 2) mod 4)"
proof -
  from generate_image_inv [OF assms(1-3)]
  have "adjacent_ok L width height (seed_coords seed) st" by (simp add: run_inv_def)
  with assms(4-7) show ?thesis unfolding adjacent_ok_def by blast
qed

lemma ex_tileset_added: "add_tile ex_lib TileSet 0 1 = Inr ex_tileset"
  by (simp add: ex_tileset_def add_tile_def TileSet_def Let_def)

lemma ex_tileset_sound: "index_sound ex_lib ex_tileset"
  using index_sound_TileSet ex_tileset_added by (rule add_tile_index_sound)

lemma ex_random_draws: "draws_from_population ex_random"
  by (auto simp: draws_from_population_def ex_random_def split: list.splits)

lemma ex_final_returned:
  "generate_image ex_random ex_lib 4 2 2 ex_tileset None None = Some (Inr ex_final)"
proof -
  have "map_option isl (generate_image ex_random ex_lib 4 2 2 ex_tileset None None) = Some False"
    by code_simp
  then obtain r where r: "generate_image ex_random ex_lib 4 2 2 ex_tileset None None = Some r"
    and "\<not> isl r"
    by auto
  then obtain st where "r = Inr st" by (cases r) auto
  with r have "generate_image ex_random ex_lib 4 2 2 ex_tileset None None = Some (Inr st)"
    by simp
  then show ?thesis by (simp add: ex_final_def)
qed

theorem adjacency_consistency_witness:
  "generate_image ex_random ex_lib 4 2 2 ex_tileset None None = Some (Inr ex_final)
   \<and> map_of (placed ex_final) (0, 0) = Some (Tile 0 False 0)
   \<and> (3, (0, 1)) \<in> set (neighbors (0, 0) 2 2)
   \<and> map_of (placed ex_final) (0, 1) = Some (Tile 0 False 0)
   \<and> borders ex_lib (Tile 0 False 0) 3 = borders ex_lib (Tile 0 False 0) ((3 + 2) mod 4)"
proof -
  have c: "map_of (placed ex_final) (0, 0) = Some (Tile 0 False 0)" by code_simp
  have n: "(3, (0, 1)) \<in> set (neighbors (0, 0) 2 2)" by code_simp
  have u: "map_of (placed ex_final) (0, 1) = Some (Tile 0 False 0)" by code_simp
  have s: "\<not> ((0, 0) \<in> seed_coords None \<and> (0, 1) \<in> seed_coords None)"
    by (simp add: seed_coords_def)
  from adjacency_consistency [OF ex_tileset_sound ex_random_draws ex_final_returned c n u s]
    ex_final_returned c n u
  show ?thesis by simp
qed

text \<open>
  C1, as the claim states it, fails. On a grid 2 wide and 1 high, the seed puts the
  uniform tile of 0s at (0, 0) and the uniform tile of 1s at (0, 1). Both are placed,
  the run returns the full grid, and the right border of the first is not the left
  border of the second.
\<close>

theorem adjacent_seeds_mismatch:
  "map_option (map_sum fst placed)
     (generate_image ex_random ex_lib 0 2 1 ex_tileset3
        (Some [((0, 0), Tile 0 False 0), ((0, 1), Tile 1 False 0)]) None)
     = Some (Inr [((0, 0), Tile 0 False 0), ((0, 1), Tile 1 False 0)])
   \<and> (3, (0, 1)) \<in> set (neighbors (0, 0) 2 1)
   \<and> borders ex_lib (Tile 0 False 0) 3 \<noteq> borders ex_lib (Tile 1 False 0) ((3 + 2) mod 4)"
  by code_simp

section \<open>Candidate sets only shrink\<close>

text \<open>
  C6. Take a state \<open>st1\<close> of a run (a state reached from the empty dictionaries by calls
  of \<open>place\<close>), a coordinate with a frontier entry there, and any later state \<open>st2\<close> of
  the run. Either the coordinate has been placed by then and its entry is gone, or it is
  still unplaced and its entry is a subset of the entry in \<open>st1\<close>, so of no greater
  size. By \<open>generate_image_reach\<close> the states of \<open>generate_image\<close> are such states.
\<close>

theorem frontier_only_narrows:
  assumes "run_reach L width height \<lparr>placed = [], frontier = [], tileset = ts\<rparr> st1"
    and "run_reach L width height st1 st2"
    and "map_of (frontier st1) c = Some s"
  shows "(c \<in> keys (placed st2) \<and> map_of (frontier st2) c = None)
       \<or> (c \<notin> keys (placed st2)
          \<and> (\<exists>s'. map_of (frontier st2) c = Some s' \<and> s' |\<subseteq>| s \<and> fcard s' \<le> fcard s))"
proof -
  have "keys (frontier st1) \<inter> keys (placed st1) = {}"
    using run_reach_disjoint [OF assms(1)] by simp
  moreover from assms(3) have "c \<in> keys (frontier st1)"
    by (metis keys_map_of option.distinct(1))
  ultimately have "c \<notin> keys (placed st1)" by blast
  from run_reach_narrows [OF assms(2,3) this] show ?thesis .
qed

theorem frontier_only_narrows_witness:
  "map_of (frontier ex_first) (0, 1) = Some {|Tile 0 False 0|}
   \<and> (((0, 1) \<in> keys (placed ex_second) \<and> map_of (frontier ex_second) (0, 1) = None)
      \<or> ((0, 1) \<notin> keys (placed ex_second)
          \<and> (\<exists>s'. map_of (frontier ex_second) (0, 1) = Some s' \<and> s' |\<subseteq>| {|Tile 0 False 0|}
                \<and> fcard s' \<le> fcard {|Tile (0::nat) False 0|})))"
proof -
  have 1: "run_reach ex_lib 2 2 \<lparr>placed = [], frontier = [], tileset = ex_tileset\<rparr> ex_first"
    unfolding ex_first_def ex_start_def by (intro run_reach.intros)
  have 2: "run_reach ex_lib 2 2 ex_first ex_second"
    unfolding ex_second_def by (intro run_reach.intros)
  have 3: "map_of (frontier ex_first) (0, 1) = Some {|Tile 0 False 0|}"
    by code_simp
  from frontier_only_narrows [OF 1 2 3] 3 show ?thesis by blast
qed

section \<open>Contradiction\<close>

lemma place_returns:
  assumes "place L width height coord tile st = Inr st'"
    and "(side, nc) \<in> set (neighbors coord width height)" and "nc \<notin> keys (placed st')"
  shows "\<exists>s. map_of (frontier st') nc = Some s \<and> s \<noteq> {||}"
proof -
  from assms(1) have loop: "place_loop L tile (neighbors coord width height)
      (place_start coord tile st) = Inr st'"
    by (simp add: place_alt)
  have "placed st' = placed (place_start coord tile st)"
    using place_loop_placed [of L tile "neighbors coord width height" "place_start coord tile st"]
      loop by simp
  with assms(3) have "nc \<notin> keys (placed (place_start coord tile st))" by simp
  from place_loop_success(2) [OF loop assms(2) this] show ?thesis by blast
qed

lemma place_raises:
  assumes "place L width height coord tile st = Inl (e, st')"
  shows "\<exists>pre side nc post st_mid. neighbors coord width height = pre @ (side, nc) # post
           \<and> place_loop L tile pre (place_start coord tile st) = Inr st_mid
           \<and> e = Constraint_failure nc
           \<and> nc \<notin> keys (placed st')
           \<and> placed st' = AList.update coord tile (placed st)
           \<and> frontier st' = AList.update nc {||} (frontier st_mid)"
proof -
  from assms have "place_loop L tile (neighbors coord width height)
      (place_start coord tile st) = Inl (e, st')"
    by (simp add: place_alt)
  from place_loop_failure [OF this] obtain pre side nc post st_mid where
    h: "neighbors coord width height = pre @ (side, nc) # post"
      "place_loop L tile pre (place_start coord tile st) = Inr st_mid"
      "nc \<notin> keys (placed (place_start coord tile st))"
      "cands_of L tile side nc st_mid = {||}"
      "e = Constraint_failure nc"
      "st' = narrow_one L tile side nc st_mid"
    by blast
  have p: "placed st' = AList.update coord tile (placed st)"
    using place_placed [of L width height coord tile st] assms by simp
  then have "placed (place_start coord tile st) = placed st'" by (simp add: place_start_def)
  with h(3) have "nc \<notin> keys (placed st')" by simp
  moreover have "frontier st' = AList.update nc {||} (frontier st_mid)"
    using h(4,6) by (simp add: narrow_one_def)
  ultimately show ?thesis using h(1,2,5) p by blast
qed

text \<open>
  C2. A call of \<open>place\<close> that returns has left every unplaced neighbour a candidate
  set that is not empty. A call that raises has worked through the neighbours before
  some neighbour \<open>nc\<close> without an error, has left \<open>nc\<close> the empty set, and raises the
  contradiction error of \<open>nc\<close> at once: the dictionaries are the ones the earlier
  neighbours left, with the tile stored in \<open>placed\<close> and the empty set stored under
  \<open>nc\<close>; nothing is undone and the later neighbours are not visited. A run that ends
  in a contradiction error ends with the error and the state of such a call.
\<close>

theorem contradiction_aborts:
  "(case place L width height coord tile st of
      Inr st' \<Rightarrow>
        (\<forall>side nc. (side, nc) \<in> set (neighbors coord width height) \<longrightarrow> nc \<notin> keys (placed st')
           \<longrightarrow> (\<exists>s. map_of (frontier st') nc = Some s \<and> s \<noteq> {||}))
    | Inl (e, st') \<Rightarrow>
        (\<exists>pre side nc post st_mid. neighbors coord width height = pre @ (side, nc) # post
           \<and> place_loop L tile pre (place_start coord tile st) = Inr st_mid
           \<and> e = Constraint_failure nc
           \<and> nc \<notin> keys (placed st')
           \<and> placed st' = AList.update coord tile (placed st)
           \<and> frontier st' = AList.update nc {||} (frontier st_mid)))
   \<and> (\<forall>R fuel ts seed rng nc st'.
         generate_image R L fuel width height ts seed rng
           = Some (Inl (Constraint_failure nc, st'))
         \<longrightarrow> (\<exists>coord tile st0.
                run_reach L width height \<lparr>placed = [], frontier = [], tileset = ts\<rparr> st0
                \<and> place L width height coord tile st0 = Inl (Constraint_failure nc, st')))"
proof (intro conjI allI impI)
  show "case place L width height coord tile st of
      Inr st' \<Rightarrow>
        (\<forall>side nc. (side, nc) \<in> set (neighbors coord width height) \<longrightarrow> nc \<notin> keys (placed st')
           \<longrightarrow> (\<exists>s. map_of (frontier st') nc = Some s \<and> s \<noteq> {||}))
    | Inl (e, st') \<Rightarrow>
        (\<exists>pre side nc post st_mid. neighbors coord width height = pre @ (side, nc) # post
           \<and> place_loop L tile pre (place_start coord tile st) = Inr st_mid
           \<and> e = Constraint_failure nc
           \<and> nc \<notin> keys (placed st')
           \<and> placed st' = AList.update coord tile (placed st)
           \<and> frontier st' = AList.update nc {||} (frontier st_mid))"
  proof (cases "place L width height coord tile st")
    case (Inl x)
    obtain e st' where "x = (e, st')" by (cases x)
    with Inl place_raises [of L width height coord tile st e st'] show ?thesis by simp
  next
    case (Inr st')
    with place_returns [of L width height coord tile st st'] show ?thesis by simp
  qed
next
  fix R :: "('r, 'a) random" and fuel ts seed rng nc st'
  assume "generate_image R L fuel width height ts seed rng
           = Some (Inl (Constraint_failure nc, st'))"
  then show "\<exists>coord tile st0.
                run_reach L width height \<lparr>placed = [], frontier = [], tileset = ts\<rparr> st0
                \<and> place L width height coord tile st0 = Inl (Constraint_failure nc, st')"
    by (rule generate_image_failure)
qed

lemma ex_seeded_raises:
  "map_sum fst (\<lambda>st. ()) (place ex_lib 3 1 (0, 2) (Tile 1 False 0) ex_seeded)
     = Inl (Constraint_failure (0, 1))"
  by code_simp

theorem contradiction_aborts_witness:
  "map_sum fst (\<lambda>st. ()) (place ex_lib 3 1 (0, 2) (Tile 1 False 0) ex_seeded)
     = Inl (Constraint_failure (0, 1))
   \<and> (\<exists>pre side post st_mid. neighbors (0, 2) 3 1 = pre @ (side, (0, 1)) # post
         \<and> place_loop ex_lib (Tile 1 False 0) pre (place_start (0, 2) (Tile 1 False 0) ex_seeded)
             = Inr st_mid
         \<and> (0, 1) \<notin> keys (placed (outcome_state
                (place ex_lib 3 1 (0, 2) (Tile 1 False 0) ex_seeded)))
         \<and> placed (outcome_state (place ex_lib 3 1 (0, 2) (Tile 1 False 0) ex_seeded))
             = AList.update (0, 2) (Tile 1 False 0) (placed ex_seeded)
         \<and> frontier (outcome_state (place ex_lib 3 1 (0, 2) (Tile 1 False 0) ex_seeded))
             = AList.update (0, 1) {||} (frontier st_mid))"
proof -
  let ?r = "place ex_lib 3 1 (0, 2) (Tile 1 False 0) ex_seeded"
  from ex_seeded_raises obtain st' where r: "?r = Inl (Constraint_failure (0, 1), st')"
    by (cases ?r) auto
  have "case ?r of
      Inr st' \<Rightarrow>
        (\<forall>side nc. (side, nc) \<in> set (neighbors (0, 2) 3 1) \<longrightarrow> nc \<notin> keys (placed st')
           \<longrightarrow> (\<exists>s. map_of (frontier st') nc = Some s \<and> s \<noteq> {||}))
    | Inl (e, st') \<Rightarrow>
        (\<exists>pre side nc post st_mid. neighbors (0, 2) 3 1 = pre @ (side, nc) # post
           \<and> place_loop ex_lib (Tile 1 False 0) pre (place_start (0, 2) (Tile 1 False 0) ex_seeded)
               = Inr st_mid
           \<and> e = Constraint_failure nc
           \<and> nc \<notin> keys (placed st')
           \<and> placed st' = AList.update (0, 2) (Tile 1 False 0) (placed ex_seeded)
           \<and> frontier st' = AList.update nc {||} (frontier st_mid))"
    using contradiction_aborts [where L = ex_lib and width = 3 and height = 1
        and coord = "(0, 2)" and tile = "Tile 1 False 0" and st = ex_seeded]
    by (rule conjunct1)
  with r show ?thesis using ex_seeded_raises by auto
qed

section \<open>Determinism\<close>

lemma same_draws_choices:
  assumes "same_draws R1 R2 rel" and "rel a b"
  shows "(choices R1 a xs ws = None \<and> choices R2 b xs ws = None)
       \<or> (\<exists>t a' b'. choices R1 a xs ws = Some (t, a') \<and> choices R2 b xs ws = Some (t, b')
             \<and> rel a' b')"
proof -
  from assms have "rel_option (\<lambda>x y. fst x = fst y \<and> rel (snd x) (snd y))
      (choices R1 a xs ws) (choices R2 b xs ws)"
    by (simp add: same_draws_def)
  then show ?thesis
    by (cases "choices R1 a xs ws"; cases "choices R2 b xs ws") auto
qed

lemma same_draws_choice:
  assumes "same_draws R1 R2 rel" and "rel a b"
  shows "(choice R1 a xs = None \<and> choice R2 b xs = None)
       \<or> (\<exists>t a' b'. choice R1 a xs = Some (t, a') \<and> choice R2 b xs = Some (t, b')
             \<and> rel a' b')"
proof -
  from assms have "rel_option (\<lambda>x y. fst x = fst y \<and> rel (snd x) (snd y))
      (choice R1 a xs) (choice R2 b xs)"
    by (simp add: same_draws_def)
  then show ?thesis
    by (cases "choice R1 a xs"; cases "choice R2 b xs") auto
qed

lemma same_dict_map_of: "same_dict d1 d2 \<Longrightarrow> map_of d1 = map_of d2"
  by (simp add: same_dict_def map_of_inject_set)

lemma same_dict_append:
  assumes "same_dict d1 d2" and "map_of d1 k = None"
  shows "same_dict (d1 @ [(k, v)]) (d2 @ [(k, v)])"
proof -
  from assms have "map_of d2 k = None" by (simp add: same_dict_map_of)
  with assms show ?thesis by (auto simp: same_dict_def map_of_eq_None_iff)
qed

lemma same_dict_sorted_keys:
  fixes d1 d2 :: "('k::linorder \<times> 'v) list"
  assumes "same_dict d1 d2"
  shows "sort (map fst d1) = sort (map fst d2)"
proof (rule sorted_distinct_set_unique)
  show "sorted (sort (map fst d1))" "sorted (sort (map fst d2))" by simp_all
  show "distinct (sort (map fst d1))" "distinct (sort (map fst d2))"
    using assms by (simp_all add: same_dict_def)
  show "set (sort (map fst d1)) = set (sort (map fst d2))"
    using assms by (simp add: same_dict_def)
qed

lemma match_border_same:
  assumes "same_contents ts1 ts2" and "side < 4"
  shows "fst (match_border ts1 border side) = fst (match_border ts2 border side)"
    and "same_contents (snd (match_border ts1 border side)) (snd (match_border ts2 border side))"
proof -
  from assms have d: "same_dict (border_map ts1 side) (border_map ts2 side)"
    by (simp add: same_contents_def)
  then have m: "map_of (border_map ts1 side) border = map_of (border_map ts2 side) border"
    by (simp add: same_dict_map_of)
  show "fst (match_border ts1 border side) = fst (match_border ts2 border side)"
    using m by (simp add: match_border_def split: option.splits)
  show "same_contents (snd (match_border ts1 border side)) (snd (match_border ts2 border side))"
  proof (cases "map_of (border_map ts1 side) border")
    case None
    moreover from None m have "map_of (border_map ts2 side) border = None" by simp
    ultimately show ?thesis
      using same_dict_append [OF d None, of "{||}"] assms(1)
      by (simp add: match_border_def same_contents_def)
  next
    case (Some s)
    moreover from Some m have "map_of (border_map ts2 side) border = Some s" by simp
    ultimately show ?thesis using assms(1) by (simp add: match_border_def)
  qed
qed

lemma cands_of_same:
  assumes "same_run st1 st2"
  shows "cands_of L tile side fc st1 = cands_of L tile side fc st2"
  using assms match_border_same(1) [of "tileset st1" "tileset st2" "(side + 2) mod 4" "borders L tile side"]
  by (simp add: cands_of_def same_run_def)

lemma narrow_one_same:
  assumes "same_run st1 st2"
  shows "same_run (narrow_one L tile side fc st1) (narrow_one L tile side fc st2)"
  using assms cands_of_same [OF assms, of L tile side fc]
    match_border_same(2) [of "tileset st1" "tileset st2" "(side + 2) mod 4" "borders L tile side"]
  by (simp add: narrow_one_def same_run_def)

lemma place_loop_same:
  "same_run st1 st2 \<Longrightarrow> same_outcome (place_loop L tile ns st1) (place_loop L tile ns st2)"
proof (induction ns arbitrary: st1 st2)
  case Nil
  then show ?case by (simp add: same_outcome_def)
next
  case (Cons n ns)
  obtain side fc where n: "n = (side, fc)" by (cases n)
  have p: "placed st1 = placed st2" using Cons.prems by (simp add: same_run_def)
  have c: "cands_of L tile side fc st1 = cands_of L tile side fc st2"
    using Cons.prems by (rule cands_of_same)
  have s: "same_run (narrow_one L tile side fc st1) (narrow_one L tile side fc st2)"
    using Cons.prems by (rule narrow_one_same)
  show ?case
    using Cons.IH [OF Cons.prems] Cons.IH [OF s] s
    by (simp add: n place_loop_Cons p c same_outcome_def)
qed

lemma place_same:
  assumes "same_run st1 st2"
  shows "same_outcome (place L width height coord tile st1) (place L width height coord tile st2)"
proof -
  from assms have "same_run (place_start coord tile st1) (place_start coord tile st2)"
    by (simp add: same_run_def place_start_def)
  then show ?thesis unfolding place_alt by (rule place_loop_same)
qed

lemma place_seeds_same:
  "same_run st1 st2 \<Longrightarrow>
     same_outcome (place_seeds L width height seeds st1) (place_seeds L width height seeds st2)"
proof (induction seeds arbitrary: st1 st2)
  case Nil
  then show ?case by (simp add: same_outcome_def)
next
  case (Cons sd seeds)
  obtain coord tile where sd: "sd = (coord, tile)" by (cases sd)
  from place_same [OF Cons.prems, of L width height coord tile] show ?case
    using Cons.IH
    by (cases "place L width height coord tile st1"; cases "place L width height coord tile st2")
      (auto simp: sd same_outcome_def)
qed

lemma get_weights_same:
  assumes "same_contents ts1 ts2"
  shows "get_weights ts1 xs = get_weights ts2 xs"
proof -
  from assms have "map_of (tiles ts1) = map_of (tiles ts2)"
    by (simp add: same_contents_def same_dict_map_of)
  then have "get_weight ts1 t = get_weight ts2 t" for t by (simp add: get_weight_def)
  then have step: "get_weights ts1 (t # xs) = get_weights ts2 (t # xs)"
    if "get_weights ts1 xs = get_weights ts2 xs" for t xs
    using that by (simp split: sum.splits)
  show ?thesis by (induction xs) (simp, rule step)
qed

lemma generate_loop_same:
  assumes "same_draws R1 R2 rel" and "rel rng1 rng2" and "same_run st1 st2"
  shows "rel_option same_outcome
           (generate_loop R1 L fuel width height st1 rng1)
           (generate_loop R2 L fuel width height st2 rng2)"
  using assms(2,3)
proof (induction fuel arbitrary: st1 st2 rng1 rng2)
  case 0
  then show ?case by (simp add: same_run_def same_outcome_def)
next
  case (Suc fuel)
  from Suc.prems(2) have p: "placed st1 = placed st2" and f: "frontier st1 = frontier st2"
    and t: "same_contents (tileset st1) (tileset st2)"
    by (simp_all add: same_run_def)
  show ?case
  proof (cases "int (length (placed st2)) < width * height")
    case False
    with Suc.prems(2) p show ?thesis by (simp add: same_outcome_def)
  next
    case True
    show ?thesis
    proof (cases "py_min by_size (frontier st2)")
      case None
      with True Suc.prems(2) p f show ?thesis by (simp add: same_outcome_def)
    next
      case (Some sel)
      obtain coord poss where sel: "sel = (coord, poss)" by (cases sel)
      have w: "get_weights (tileset st1) (sorted_list_of_fset poss)
          = get_weights (tileset st2) (sorted_list_of_fset poss)"
        using t by (rule get_weights_same)
      show ?thesis
      proof (cases "get_weights (tileset st2) (sorted_list_of_fset poss)")
        case (Inl e)
        with True Some sel w Suc.prems(2) p f show ?thesis by (simp add: same_outcome_def)
      next
        case (Inr ws)
        from same_draws_choices [OF assms(1) Suc.prems(1), of "sorted_list_of_fset poss" ws]
        show ?thesis
        proof
          assume "choices R1 rng1 (sorted_list_of_fset poss) ws = None
            \<and> choices R2 rng2 (sorted_list_of_fset poss) ws = None"
          with True Some sel Inr w Suc.prems(2) p f show ?thesis
            by (simp add: same_outcome_def)
        next
          assume "\<exists>t a' b'. choices R1 rng1 (sorted_list_of_fset poss) ws = Some (t, a')
            \<and> choices R2 rng2 (sorted_list_of_fset poss) ws = Some (t, b') \<and> rel a' b'"
          then obtain tile a' b' where
            c1: "choices R1 rng1 (sorted_list_of_fset poss) ws = Some (tile, a')"
            and c2: "choices R2 rng2 (sorted_list_of_fset poss) ws = Some (tile, b')"
            and r: "rel a' b'"
            by blast
          have pl: "same_outcome (place L width height coord tile st1)
              (place L width height coord tile st2)"
            using Suc.prems(2) by (rule place_same)
          show ?thesis
          proof (cases "place L width height coord tile st1")
            case l1: (Inl x1)
            with pl obtain x2 where l2: "place L width height coord tile st2 = Inl x2"
              by (cases "place L width height coord tile st2") (auto simp: same_outcome_def)
            with True Some sel Inr w c1 c2 p f l1 pl show ?thesis by simp
          next
            case r1: (Inr s1)
            with pl obtain s2 where r2: "place L width height coord tile st2 = Inr s2"
              and s: "same_run s1 s2"
              by (cases "place L width height coord tile st2") (auto simp: same_outcome_def)
            with True Some sel Inr w c1 c2 p f r1 Suc.IH [OF r s] show ?thesis by simp
          qed
        qed
      qed
    qed
  qed
qed

lemma generate_image_same:
  assumes "same_contents ts1 ts2" and "same_draws R1 R2 rel" and "rel r1 r2"
  shows "rel_option same_outcome
           (generate_image R1 L fuel width height ts1 seed (Some r1))
           (generate_image R2 L fuel width height ts2 seed (Some r2))"
proof -
  let ?s1 = "\<lparr>placed = [], frontier = [], tileset = ts1\<rparr>"
  let ?s2 = "\<lparr>placed = [], frontier = [], tileset = ts2\<rparr>"
  have start: "same_run ?s1 ?s2" using assms(1) by (simp add: same_run_def)
  have rest: "rel_option same_outcome
      (case place_seeds L width height sd ?s1 of Inl x \<Rightarrow> Some (Inl x)
        | Inr st \<Rightarrow> generate_loop R1 L fuel width height st a)
      (case place_seeds L width height sd ?s2 of Inl x \<Rightarrow> Some (Inl x)
        | Inr st \<Rightarrow> generate_loop R2 L fuel width height st b)"
    if "rel a b" for sd a b
  proof -
    have ps: "same_outcome (place_seeds L width height sd ?s1) (place_seeds L width height sd ?s2)"
      using start by (rule place_seeds_same)
    show ?thesis
    proof (cases "place_seeds L width height sd ?s1")
      case l1: (Inl x1)
      with ps obtain x2 where "place_seeds L width height sd ?s2 = Inl x2"
        by (cases "place_seeds L width height sd ?s2") (auto simp: same_outcome_def)
      with l1 ps show ?thesis by simp
    next
      case r1: (Inr s1)
      with ps obtain s2 where "place_seeds L width height sd ?s2 = Inr s2" "same_run s1 s2"
        by (cases "place_seeds L width height sd ?s2") (auto simp: same_outcome_def)
      with r1 generate_loop_same [OF assms(2) that, of s1 s2 L fuel width height]
      show ?thesis by simp
    qed
  qed
  show ?thesis
  proof (cases seed)
    case None
    have k: "sort (map fst (tiles ts1)) = sort (map fst (tiles ts2))"
      using assms(1) by (simp add: same_contents_def same_dict_sorted_keys)
    from same_draws_choice [OF assms(2,3), of "sort (map fst (tiles ts2))"] show ?thesis
    proof
      assume "choice R1 r1 (sort (map fst (tiles ts2))) = None
        \<and> choice R2 r2 (sort (map fst (tiles ts2))) = None"
      with None k start show ?thesis
        by (simp add: generate_image_def Let_def same_outcome_def)
    next
      assume "\<exists>t a' b'. choice R1 r1 (sort (map fst (tiles ts2))) = Some (t, a')
        \<and> choice R2 r2 (sort (map fst (tiles ts2))) = Some (t, b') \<and> rel a' b'"
      then obtain t a' b' where
        "choice R1 r1 (sort (map fst (tiles ts2))) = Some (t, a')"
        "choice R2 r2 (sort (map fst (tiles ts2))) = Some (t, b')"
        and r: "rel a' b'"
        by blast
      with None k rest [OF r, of "[((0, 0), t)]"] show ?thesis
        by (simp add: generate_image_def Let_def)
    qed
  next
    case (Some sd)
    with rest [OF assms(3), of sd] show ?thesis
      by (simp add: generate_image_def Let_def)
  qed
qed

lemma same_outcome_placed:
  "rel_option same_outcome a b \<Longrightarrow>
     map_option (map_sum fst placed) a = map_option (map_sum fst placed) b"
  by (cases a; cases b)
    (auto simp: same_outcome_def same_run_def split: sum.splits)

text \<open>
  C4, as the code has it. Two runs on the same grid with the same seed dictionary (the
  same assignments in the same insertion order), each with a generator of its own made
  from the same seed \<open>s\<close>, the two generators making the same draws
  (\<open>same_draws\<close>), and with tile sets of the same contents: the same tiles and
  weights, the same border index, in whatever order the tiles were added. The two runs
  end alike: both return the same placed dictionary, or both raise the same error with
  the same placed dictionary, or both are cut at the same bound. The insertion order of
  the tile set's dictionaries does not enter a run: the code reads them by key only,
  draws the first tile from \<open>sorted(tileset.tiles)\<close> and sorts every candidate
  set before a draw. The insertion order of the seed dictionary does enter.
\<close>

theorem determinism_up_to_insertion_order:
  assumes "same_contents ts1 ts2" and "same_draws R1 R2 rel"
    and "rel (Random R1 s) (Random R2 s)"
  shows "map_option (map_sum fst placed)
           (generate_image R1 L fuel width height ts1 seed (Some (Random R1 s)))
       = map_option (map_sum fst placed)
           (generate_image R2 L fuel width height ts2 seed (Some (Random R2 s)))"
  using generate_image_same [OF assms] by (rule same_outcome_placed)

lemma all_sides: "(\<forall>side < 4. P side) \<longleftrightarrow> P 0 \<and> P 1 \<and> P 2 \<and> P (3::nat)"
proof -
  have "side < 4 \<longleftrightarrow> side = 0 \<or> side = 1 \<or> side = 2 \<or> side = 3" for side :: nat
    by auto
  then show ?thesis by auto
qed

lemma ex_same_contents: "same_contents ex_tileset4 ex_tileset5"
  unfolding same_contents_def all_sides by code_simp

lemma ex_cycle_same_draws: "same_draws ex_cycle ex_cycle (=)"
  by (simp add: same_draws_def option.rel_refl)

theorem determinism_up_to_insertion_order_witness:
  "tiles ex_tileset4 \<noteq> tiles ex_tileset5
   \<and> map_option (map_sum fst placed)
        (generate_image ex_cycle ex_lib2 5 5 1 ex_tileset4 (Some ex_pins) (Some (Random ex_cycle 0)))
     = map_option (map_sum fst placed)
        (generate_image ex_cycle ex_lib2 5 5 1 ex_tileset5 (Some ex_pins) (Some (Random ex_cycle 0)))
   \<and> map_option (map_sum fst placed)
        (generate_image ex_cycle ex_lib2 5 5 1 ex_tileset5 (Some ex_pins) (Some (Random ex_cycle 0)))
     = Some (Inr [((0, 0), Tile 0 False 0), ((0, 4), Tile 0 False 0), ((0, 1), Tile 0 False 0),
                  ((0, 3), Tile 1 False 2), ((0, 2), Tile 1 False 1)])"
proof -
  have order: "tiles ex_tileset4 \<noteq> tiles ex_tileset5" by code_simp
  have grid: "map_option (map_sum fst placed)
        (generate_image ex_cycle ex_lib2 5 5 1 ex_tileset5 (Some ex_pins) (Some (Random ex_cycle 0)))
     = Some (Inr [((0, 0), Tile 0 False 0), ((0, 4), Tile 0 False 0), ((0, 1), Tile 0 False 0),
                  ((0, 3), Tile 1 False 2), ((0, 2), Tile 1 False 1)])"
    by code_simp
  note same = determinism_up_to_insertion_order [OF ex_same_contents ex_cycle_same_draws refl,
      where L = ex_lib2 and fuel = 5 and width = 5 and height = 1 and seed = "Some ex_pins"
        and s = 0]
  show ?thesis by (intro conjI order same grid)
qed

text \<open>
  C4, as the claim states it, fails. A row of five cells, pinned with the uniform tile at
  both ends; the same tile set and the same generator from the same seed in both runs.
  The two seed dictionaries hold the same assignments and differ in the insertion order
  only (Python compares them equal). After the pins, (0, 1) and (0, 3) have three
  candidates each; the first draw goes to the one whose frontier entry was created
  first, so that (0, 1) gets the uniform tile in one run and the other file's tile in
  the other.
\<close>

theorem seed_order_changes_grid:
  "same_dict ex_pins ex_pins_swapped
   \<and> map_option (map_sum fst (\<lambda>st. map_of (placed st) (0, 1)))
        (generate_image ex_cycle ex_lib2 5 5 1 ex_tileset4 (Some ex_pins)
           (Some (Random ex_cycle 0)))
     = Some (Inr (Some (Tile 0 False 0)))
   \<and> map_option (map_sum fst (\<lambda>st. map_of (placed st) (0, 1)))
        (generate_image ex_cycle ex_lib2 5 5 1 ex_tileset4 (Some ex_pins_swapped)
           (Some (Random ex_cycle 0)))
     = Some (Inr (Some (Tile 1 False 0)))"
  by code_simp

section \<open>The tile set during a run\<close>

text \<open>
  C10. \<open>match_border\<close> reads the index with \<open>border_map[side][border]\<close>, and the
  dictionaries of the index create an entry for a key that is looked up and missing.
  The seed puts the tile of 1s, whose file was never added, at (0, 0) of a grid 2 wide
  and 1 high over the first tile set. The lookup of its right border among the left
  borders stores an empty set under that border: the run ends with the contradiction
  error of (0, 1), and the index of left borders has a key it did not have before.
\<close>

theorem tileset_mutated_by_lookup:
  "map_option (\<lambda>r. (map_sum fst placed r, map_of (border_map (tileset (outcome_state r)) 1) [1, 1]))
     (generate_image ex_random ex_lib 0 2 1 ex_tileset (Some [((0, 0), Tile 1 False 0)]) None)
   = Some (Inl (Constraint_failure (0, 1)), Some {||})
   \<and> map_of (border_map ex_tileset 1) [1, 1] = None"
  by code_simp

end
